theory Spec2Isabelle
  imports Complex_Main "HOL-Library.Multiset"
begin

section \<open>Hands, ranks and the pattern catalog\<close>

text \<open>
  A hand is a numpy integer array with one slot per rank (\<open>np.array([0] * NUM_RANKS)\<close>);
  a rank is an index into it.  A pattern is the identifier the players pass around (the
  interactive player reads it from the keyboard, "1x5 format").  The leading rank is either a
  rank or the sentinel that \<open>main.py\<close> writes as \<open>-1\<close> (and as \<open>None\<close> before the first
  move of a game); the sentinel is \<open>None\<close> here.
\<close>

type_synonym hand = "int list"
type_synonym pattern = string
type_synonym lead = "nat option"

text \<open>
  Modelled from the spec: the pattern catalog of \<open>consts.py\<close>, which is not among the
  sources.  Each entry gives the number of distinct ranks required, the copies required per
  rank, and whether the ranks must be consecutive.  The catalog itself is a parameter
  \<open>cat :: pattern \<Rightarrow> shape\<close> of everything below.
\<close>

record shape =
  ranks_required :: nat
  copies_per_rank :: nat
  contiguous :: bool

section \<open>The move legality and selection engine\<close>

text \<open>
  Modelled from the spec: \<open>utils.smallest_valid_choice\<close>, which is not among the sources.
  It returns the tuple \<open>(contains_pattern, pattern, choice, leading_rank)\<close> that
  \<open>NaivePlayer.move\<close> unpacks.
\<close>

record selection =
  sel_found :: bool
  sel_pattern :: pattern
  sel_choice :: "int list"
  sel_rank :: lead

text \<open>
  Modelled from the spec: a contiguous pattern of width \<open>w\<close> occupies the ranks
  \<open>r, r+1, \<dots>, r+w-1\<close>; a non-contiguous pattern (width 1) occupies a single rank.
\<close>

definition extent :: "shape \<Rightarrow> nat" where
  "extent sh = (if contiguous sh then ranks_required sh else 1)"

text \<open>
  Modelled from the spec: a starting rank \<open>r\<close> is valid only if all the ranks of the pattern
  exist within the rank range and each has at least the required copy count in the hand.
\<close>

definition available :: "hand \<Rightarrow> shape \<Rightarrow> nat \<Rightarrow> bool" where
  "available h sh r \<longleftrightarrow>
     r + extent sh \<le> length h \<and>
     list_all (\<lambda>k. int (copies_per_rank sh) \<le> h ! k) [r..<r + extent sh]"

text \<open>
  Modelled from the spec: the "topmost (or representative) rank" of the candidate starting at
  \<open>r\<close>, the rank that is compared with the leading rank and returned with the choice.
\<close>

definition representative :: "shape \<Rightarrow> nat \<Rightarrow> nat" where
  "representative sh r = r + extent sh - 1"

text \<open>
  Modelled from the spec: the outrank constraint; nothing is required when the leading rank
  is "none".
\<close>

definition outranks :: "nat \<Rightarrow> lead \<Rightarrow> bool" where
  "outranks t leading = (case leading of None \<Rightarrow> True | Some l \<Rightarrow> l < t)"

text \<open>
  Modelled from the spec: the choice is "a count vector marking exactly the required copies at
  the required ranks", of the same shape as the hand.
\<close>

definition mark :: "nat \<Rightarrow> shape \<Rightarrow> nat \<Rightarrow> int list" where
  "mark n sh r =
     map (\<lambda>k. if r \<le> k \<and> k < r + extent sh then int (copies_per_rank sh) else 0) [0..<n]"

text \<open>
  Modelled from the spec: the candidate starting ranks in ascending order that pass both the
  availability and the outrank test.
\<close>

definition candidates :: "hand \<Rightarrow> shape \<Rightarrow> lead \<Rightarrow> nat list" where
  "candidates h sh leading =
     filter (\<lambda>r. available h sh r \<and> outranks (representative sh r) leading) [0..<length h]"

text \<open>
  Modelled from the spec: \<open>find_smallest_valid_choice(hand, pattern, leading_rank = none)\<close>
  returns the first candidate with its representative rank, or reports not-found.  The spec
  does not say what the choice and the rank of a not-found result are; here they are the empty
  choice and the leading rank that was passed in.  No theorem below depends on them.
\<close>

definition find_smallest_valid_choice ::
  "(pattern \<Rightarrow> shape) \<Rightarrow> hand \<Rightarrow> pattern \<Rightarrow> lead \<Rightarrow> selection" where
  "find_smallest_valid_choice cat h p leading =
     (case candidates h (cat p) leading of
        [] \<Rightarrow> \<lparr>sel_found = False, sel_pattern = p,
               sel_choice = replicate (length h) 0, sel_rank = leading\<rparr>
      | r # _ \<Rightarrow> \<lparr>sel_found = True, sel_pattern = p,
               sel_choice = mark (length h) (cat p) r,
               sel_rank = Some (representative (cat p) r)\<rparr>)"

text \<open>
  A legal choice, in the words of the spec's data model: a count vector of the hand's shape
  that realises the pattern at some starting rank within the rank range, whose counts do not
  exceed the hand's, and whose representative rank \<open>t\<close> satisfies the outrank constraint.
\<close>

definition legal_choice ::
  "(pattern \<Rightarrow> shape) \<Rightarrow> hand \<Rightarrow> pattern \<Rightarrow> lead \<Rightarrow> int list \<Rightarrow> nat \<Rightarrow> bool" where
  "legal_choice cat h p leading c t \<longleftrightarrow>
     list_ex (\<lambda>r. r + extent (cat p) \<le> length h \<and>
                  c = mark (length h) (cat p) r \<and>
                  t = representative (cat p) r) [0..<length h] \<and>
     list_all2 (\<le>) c h \<and> outranks t leading"

text \<open>A small catalog for the examples: singles, pairs and a run of three pairs.\<close>

definition catalog0 :: "pattern \<Rightarrow> shape" where
  "catalog0 p =
     (if p = ''1x1'' then \<lparr>ranks_required = 1, copies_per_rank = 1, contiguous = False\<rparr>
      else if p = ''1x2'' then \<lparr>ranks_required = 1, copies_per_rank = 2, contiguous = False\<rparr>
      else \<lparr>ranks_required = 3, copies_per_rank = 2, contiguous = True\<rparr>)"

section \<open>The reward of a step\<close>

text \<open>
  \<open>GameEnv.calculate_reward\<close>.  The literals \<open>10\<close>, \<open>0.1\<close> and \<open>-0.1\<close> are read as the
  numbers they write.
\<close>

definition calculate_reward :: "nat \<Rightarrow> bool \<Rightarrow> int \<Rightarrow> rat" where
  "calculate_reward curr_player contains_pattern remainder =
     (if remainder = 0 then 10
      else if contains_pattern then 1 / 10
      else - (1 / 10))"


section \<open>The store of hand arrays\<close>

text \<open>
  The hands are numpy arrays that are mutated in place (\<open>self.hand -= choice\<close>) and copied
  into the history (\<open>player.hand.copy()\<close>).  The store holds every array allocated so far;
  an array is known by its position in the store, and a copy is a new position.
\<close>

type_synonym addr = nat
type_synonym store = "hand list"

datatype error =
  UnboundLocalError | TypeError | ValueError | IndexError | ZeroDivisionError | EOFError
  | KeyError | AttributeError

text \<open>
  The hands are \<open>int64\<close> arrays: \<open>np.array([0] * NUM_RANKS)\<close> and
  \<open>np.array(CARD_FREQ) * num_decks\<close> of Python integers.  Their arithmetic wraps around
  modulo \<open>2 ^ 64\<close>; \<open>9223372036854775808\<close> is \<open>2 ^ 63\<close> and \<open>18446744073709551616\<close> is
  \<open>2 ^ 64\<close>.
\<close>

definition int64 :: "int \<Rightarrow> bool" where
  "int64 x \<longleftrightarrow> - 9223372036854775808 \<le> x \<and> x < 9223372036854775808"

definition wrap64 :: "int \<Rightarrow> int" where
  "wrap64 x = (x + 9223372036854775808) mod 18446744073709551616 - 9223372036854775808"

text \<open>\<open>np.sum(self.hand)\<close>: the sum of an \<open>int64\<close> array is an \<open>int64\<close>.\<close>

definition np_sum :: "hand \<Rightarrow> int" where
  "np_sum h = wrap64 (sum_list h)"

text \<open>
  \<open>hand -= np.array(choice)\<close> on numpy arrays.  The array made of the choice is \<open>int64\<close>
  when all its entries are; it is a float array when it is empty or mixes entries below zero
  with entries from \<open>2 ^ 63\<close> on, \<open>uint64\<close> with entries from \<open>2 ^ 63\<close> on and none below
  zero, and an object array with an entry outside both ranges.  Subtracting anything but an
  \<open>int64\<close> array in place from an \<open>int64\<close> hand raises \<open>TypeError\<close> (the result cannot be
  cast back).  A hand without ranks is an empty float array, from which only an object array
  cannot be subtracted.  Then the shapes: the subtraction is elementwise when they agree, a
  one-element choice is broadcast, any other shape raises \<open>ValueError\<close>.  The differences
  wrap around.
\<close>

definition isub :: "hand \<Rightarrow> int list \<Rightarrow> error + hand" where
  "isub h c =
     (if h = [] then
        (if list_ex (\<lambda>x. x < - 9223372036854775808 \<or> 18446744073709551616 \<le> x) c
         then Inl TypeError
         else if length c \<le> 1 then Inr [] else Inl ValueError)
      else if c = [] \<or> list_ex (\<lambda>x. \<not> int64 x) c then Inl TypeError
      else if length c = length h then Inr (map2 (\<lambda>x y. wrap64 (x - y)) h c)
      else if length c = 1 then Inr (map (\<lambda>x. wrap64 (x - hd c)) h)
      else Inl ValueError)"

section \<open>Players, history and the game\<close>

datatype policy = Naive | User

record player =
  policy :: policy
  hand :: addr
  free :: bool

text \<open>\<open>GameEnv.get_state\<close> returns a dictionary; its hands are fresh copies.\<close>

record snapshot =
  snap_curr_player :: nat
  snap_hands :: "addr list"
  snap_free :: bool

record action =
  act_player :: nat
  act_contains_pattern :: bool
  act_pattern :: "pattern option"
  act_choice :: "int list option"
  act_leading_rank :: lead

record entry =
  ent_state :: snapshot
  ent_action :: action
  ent_new_state :: snapshot
  ent_reward :: rat

text \<open>
  What is outside \<open>main.py\<close>: the pattern catalog behind \<open>utils.smallest_valid_choice\<close>,
  the outcomes of \<open>random.shuffle\<close> (the permutation drawn at the step with the given
  number acts on the move set as it is then), \<open>utils.read_user_cards\<close> and the tokens
  \<open>CARDS.values()\<close>.  All four are parameters.
\<close>

record ctx =
  catalog :: "pattern \<Rightarrow> shape"
  shuffle :: "nat \<Rightarrow> pattern list \<Rightarrow> pattern list"
  read_user_cards ::
    "string \<Rightarrow> pattern option \<Rightarrow> lead \<Rightarrow> hand \<Rightarrow> bool \<times> pattern option \<times> int list \<times> lead \<times> bool"
  card_tokens :: "string list"

text \<open>
  The \<open>GameEnv\<close> object with its players (every player's \<open>moveset\<close> is the one list object
  of the environment, shuffled in place), the store, the lines still to come from the
  keyboard, and the local variables of \<open>play_game\<close>.
\<close>

record game =
  num_players :: nat
  players :: "player list"
  moveset :: "pattern list"
  store :: store
  history :: "entry list"
  inputs :: "string list"
  curr_player :: nat
  pattern :: "pattern option"
  prev_choice :: "int list option"
  leading_rank :: lead
  skip_count :: nat

text \<open>The tuple a \<open>move\<close> returns.\<close>

record outcome =
  out_contains :: bool
  out_pattern :: "pattern option"
  out_choice :: "int list option"
  out_rank :: lead
  out_remainder :: int

subsection \<open>\<open>NaivePlayer.move\<close>\<close>

text \<open>
  The \<open>for\<close> loop of a free player: the variables keep the result of the last pattern tried;
  with an empty move set they are never bound.
\<close>

fun try_patterns :: "(pattern \<Rightarrow> shape) \<Rightarrow> hand \<Rightarrow> pattern list \<Rightarrow> selection option" where
  "try_patterns cat h [] = None"
| "try_patterns cat h [p] = Some (find_smallest_valid_choice cat h p None)"
| "try_patterns cat h (p # q # ps) =
     (if sel_found (find_smallest_valid_choice cat h p None)
      then Some (find_smallest_valid_choice cat h p None)
      else try_patterns cat h (q # ps))"

text \<open>
  The selection of \<open>NaivePlayer.move\<close>.  The engine is specified for patterns of the catalog;
  a call of a player that is not free with \<open>pattern=None\<close> is an error here.
\<close>

definition naive_select ::
  "ctx \<Rightarrow> game \<Rightarrow> nat \<Rightarrow> pattern option \<Rightarrow> lead \<Rightarrow> error + selection" where
  "naive_select c g i pat leading =
     (let pl = players g ! i; h = store g ! hand pl in
      if free pl then
        (case try_patterns (catalog c) h (shuffle c (length (history g)) (moveset g)) of
           None \<Rightarrow> Inl UnboundLocalError
         | Some sel \<Rightarrow> Inr sel)
      else
        (case pat of
           None \<Rightarrow> Inl TypeError
         | Some p \<Rightarrow> Inr (find_smallest_valid_choice (catalog c) h p leading)))"

definition naive_move ::
  "ctx \<Rightarrow> game \<Rightarrow> nat \<Rightarrow> pattern option \<Rightarrow> lead \<Rightarrow> error + game \<times> outcome" where
  "naive_move c g i pat leading =
     (let pl = players g ! i; h = store g ! hand pl;
          g1 = (if free pl
                then g\<lparr>players := (players g)[i := pl\<lparr>free := False\<rparr>],
                       moveset := shuffle c (length (history g)) (moveset g)\<rparr>
                else g)
      in case naive_select c g i pat leading of
           Inl e \<Rightarrow> Inl e
         | Inr sel \<Rightarrow>
             if sel_found sel then
               (case isub h (sel_choice sel) of
                  Inl e \<Rightarrow> Inl e
                | Inr h' \<Rightarrow>
                    Inr (g1\<lparr>store := (store g1)[hand pl := h']\<rparr>,
                         \<lparr>out_contains = True, out_pattern = Some (sel_pattern sel),
                          out_choice = Some (sel_choice sel), out_rank = sel_rank sel,
                          out_remainder = np_sum h'\<rparr>))
             else
               Inr (g1, \<lparr>out_contains = False, out_pattern = Some (sel_pattern sel),
                         out_choice = Some (sel_choice sel), out_rank = sel_rank sel,
                         out_remainder = np_sum h\<rparr>))"

subsection \<open>\<open>UserPlayer.move\<close>\<close>

text \<open>
  One reading of a card line: the check against \<open>CARDS.values()\<close>, then
  \<open>utils.read_user_cards\<close>.  The result is the accepted tuple, if the input was valid, and
  the value of the variable \<open>pattern\<close> afterwards (\<open>read_user_cards\<close> rebinds it also when
  it rejects the input).
\<close>

definition read_attempt ::
  "ctx \<Rightarrow> hand \<Rightarrow> pattern option \<Rightarrow> lead \<Rightarrow> string \<Rightarrow>
     (bool \<times> pattern option \<times> int list \<times> lead) option \<times> pattern option" where
  "read_attempt c h pat leading user_cards =
     (if list_all (\<lambda>ch. [ch] \<in> set (card_tokens c)) user_cards then
        (case read_user_cards c user_cards pat leading h of
           (contains, pat', choice, user_rank, valid_input) \<Rightarrow>
             if valid_input then (Some (contains, pat', choice, user_rank), pat')
             else (None, pat'))
      else (None, pat))"

text \<open>
  The \<open>while True\<close> loop over the lines typed.  When the lines run out, \<open>input\<close> does not
  return (it blocks, or raises \<open>EOFError\<close> at the end of a file).  The result is the accepted
  tuple, the variable \<open>leading_rank\<close> at the exit and the lines left.
\<close>

fun user_loop ::
  "ctx \<Rightarrow> pattern list \<Rightarrow> bool \<Rightarrow> hand \<Rightarrow> pattern option \<Rightarrow> lead \<Rightarrow> string list \<Rightarrow>
     error + (bool \<times> pattern option \<times> int list \<times> lead) \<times> lead \<times> string list" where
  "user_loop c ms fr h pat leading [] = Inl EOFError"
| "user_loop c ms fr h pat leading (line # rest) =
     (if fr then
        (if line \<notin> set ms then user_loop c ms fr h (Some line) None rest
         else
           (case rest of
              [] \<Rightarrow> Inl EOFError
            | user_cards # rest' \<Rightarrow>
                (case read_attempt c h (Some line) None user_cards of
                   (Some r, pat') \<Rightarrow> Inr (r, None, rest')
                 | (None, pat') \<Rightarrow> user_loop c ms fr h pat' None rest')))
      else
        (case read_attempt c h pat leading line of
           (Some r, pat') \<Rightarrow> Inr (r, leading, rest)
         | (None, pat') \<Rightarrow> user_loop c ms fr h pat' leading rest))"

definition user_move ::
  "ctx \<Rightarrow> game \<Rightarrow> nat \<Rightarrow> pattern option \<Rightarrow> lead \<Rightarrow> error + game \<times> outcome" where
  "user_move c g i pat leading =
     (let pl = players g ! i; h = store g ! hand pl in
      case user_loop c (moveset g) (free pl) h pat leading (inputs g) of
        Inl e \<Rightarrow> Inl e
      | Inr ((contains, pat', choice, user_rank), leading', rest) \<Rightarrow>
          let g1 = g\<lparr>players := (players g)[i := pl\<lparr>free := False\<rparr>], inputs := rest\<rparr> in
          if contains then
            (case isub h choice of
               Inl e \<Rightarrow> Inl e
             | Inr h' \<Rightarrow>
                 Inr (g1\<lparr>store := (store g1)[hand pl := h']\<rparr>,
                      \<lparr>out_contains = True, out_pattern = pat', out_choice = Some choice,
                       out_rank = user_rank, out_remainder = np_sum h'\<rparr>))
          else
            Inr (g1, \<lparr>out_contains = False, out_pattern = pat', out_choice = Some choice,
                      out_rank = leading', out_remainder = np_sum h\<rparr>))"

text \<open>\<open>self.players[curr_player].move(...)\<close>: the method of the player's class.\<close>

definition move ::
  "ctx \<Rightarrow> game \<Rightarrow> nat \<Rightarrow> pattern option \<Rightarrow> lead \<Rightarrow> error + game \<times> outcome" where
  "move c g i pat leading =
     (case policy (players g ! i) of
        Naive \<Rightarrow> naive_move c g i pat leading
      | User \<Rightarrow> user_move c g i pat leading)"

subsection \<open>\<open>GameEnv.play_game\<close>\<close>

text \<open>\<open>GameEnv.get_state\<close>: every hand is copied to a new array.\<close>

definition get_state :: "game \<Rightarrow> nat \<Rightarrow> game \<times> snapshot" where
  "get_state g cp =
     (let copies = map (\<lambda>pl. store g ! hand pl) (players g) in
      (g\<lparr>store := store g @ copies\<rparr>,
       \<lparr>snap_curr_player = cp,
        snap_hands = [length (store g)..<length (store g) + length copies],
        snap_free = free (players g ! cp)\<rparr>))"

text \<open>
  Lines 79 to 81: if all other players skipped, the current player is free to move.
\<close>

definition mark_free :: "game \<Rightarrow> game" where
  "mark_free g =
     (if int (skip_count g) = int (num_players g) - 1
      then g\<lparr>players := (players g)[curr_player g := (players g ! curr_player g)\<lparr>free := True\<rparr>],
             skip_count := 0\<rparr>
      else g)"

text \<open>
  Lines 85 to 119: the skip counter, the history entry, and the test for the end of the game.
  The flag of the result says whether the loop is left by \<open>break\<close>.  The values returned by
  the move become the variables \<open>pattern\<close>, \<open>prev_choice\<close> and \<open>leading_rank\<close>.
\<close>

definition record_turn :: "game \<Rightarrow> nat \<Rightarrow> snapshot \<Rightarrow> outcome \<Rightarrow> error + game \<times> bool" where
  "record_turn g cp curr_state out =
     (case get_state g cp of
        (g', new_state) \<Rightarrow>
          let g'' = g'\<lparr>
                history := history g' @
                  [\<lparr>ent_state = curr_state,
                    ent_action =
                      \<lparr>act_player = cp, act_contains_pattern = out_contains out,
                       act_pattern = out_pattern out, act_choice = out_choice out,
                       act_leading_rank = out_rank out\<rparr>,
                    ent_new_state = new_state,
                    ent_reward = calculate_reward cp (out_contains out) (out_remainder out)\<rparr>],
                pattern := out_pattern out,
                prev_choice := out_choice out,
                leading_rank := out_rank out,
                skip_count := (if out_contains out then 0 else skip_count g' + 1)\<rparr>
          in if out_remainder out \<le> 0 then Inr (g'', True)
             else if num_players g'' = 0 then Inl ZeroDivisionError
             else Inr (g''\<lparr>curr_player := (cp + 1) mod num_players g''\<rparr>, False))"

text \<open>
  One iteration of the \<open>while True\<close> loop: the state is recorded, the current player is
  marked free if all others skipped, the player moves, and the turn is recorded.  Printing is
  not modelled.
\<close>

definition step :: "ctx \<Rightarrow> game \<Rightarrow> error + game \<times> bool" where
  "step c g =
     (let cp = curr_player g in
      if length (players g) \<le> cp then Inl IndexError
      else
        (case get_state g cp of
           (g1, curr_state) \<Rightarrow>
             (case move c (mark_free g1) cp (pattern g1) (leading_rank g1) of
                Inl e \<Rightarrow> Inl e
              | Inr (g2, out) \<Rightarrow> record_turn g2 cp curr_state out)))"

text \<open>
  The loop, with fuel: \<open>None\<close> when the fuel runs out before the loop is left,
  \<open>Some (Inl e)\<close> when an iteration raises, \<open>Some (Inr g)\<close> when the loop is left by
  \<open>break\<close> in the state \<open>g\<close> (the winner is \<open>curr_player g\<close>).
\<close>

fun play_game_loop :: "ctx \<Rightarrow> nat \<Rightarrow> game \<Rightarrow> (error + game) option" where
  "play_game_loop c 0 g = None"
| "play_game_loop c (Suc n) g =
     (case step c g of
        Inl e \<Rightarrow> Some (Inl e)
      | Inr (g', over) \<Rightarrow> if over then Some (Inr g') else play_game_loop c n g')"

text \<open>
  Lines 64 to 71: the player drawn by \<open>random.randint(0, num_players - 1)\<close> starts and is
  free; the variables of the loop are unset.
\<close>

definition start_game :: "game \<Rightarrow> nat \<Rightarrow> game" where
  "start_game g starter =
     g\<lparr>players := (players g)[starter := (players g ! starter)\<lparr>free := True\<rparr>],
       curr_player := starter, pattern := None, prev_choice := None,
       leading_rank := None, skip_count := 0\<rparr>"

definition play_game :: "ctx \<Rightarrow> nat \<Rightarrow> game \<Rightarrow> nat \<Rightarrow> (error + game) option" where
  "play_game c fuel g starter =
     (if length (players g) \<le> starter then Some (Inl IndexError)
      else play_game_loop c fuel (start_game g starter))"

text \<open>
  The states the loop goes through: the state after each iteration, up to the given number of
  iterations, until the loop is left or an iteration raises.
\<close>

fun game_states :: "ctx \<Rightarrow> nat \<Rightarrow> game \<Rightarrow> game list" where
  "game_states c 0 g = []"
| "game_states c (Suc n) g =
     (case step c g of
        Inl e \<Rightarrow> []
      | Inr (g', over) \<Rightarrow> g' # (if over then [] else game_states c n g'))"

subsection \<open>\<open>GameEnv.reset\<close>\<close>

text \<open>
  The \<open>while not dealt\<close> loop over the indices drawn by \<open>random.randint(0, NUM_RANKS-1)\<close>,
  which raises \<open>ValueError\<close> when there is no rank.  \<open>None\<close>: the draws ran out before a card
  was dealt.  The counts are \<open>int64\<close>.
\<close>

fun deal_card ::
  "nat \<Rightarrow> hand \<Rightarrow> hand \<Rightarrow> nat list \<Rightarrow> (error + hand \<times> hand \<times> nat list) option" where
  "deal_card num_ranks card_freq h [] = (if num_ranks = 0 then Some (Inl ValueError) else None)"
| "deal_card num_ranks card_freq h (idx # draws) =
     (if num_ranks = 0 then Some (Inl ValueError)
      else if length card_freq \<le> idx then Some (Inl IndexError)
      else if card_freq ! idx > 0 then
        (if length h \<le> idx then Some (Inl IndexError)
         else Some (Inr (card_freq[idx := wrap64 (card_freq ! idx - 1)],
                         h[idx := wrap64 (h ! idx + 1)], draws)))
      else deal_card num_ranks card_freq h draws)"

text \<open>\<open>for card in range(cards_per_player[p])\<close>.\<close>

fun deal_cards ::
  "nat \<Rightarrow> nat \<Rightarrow> hand \<Rightarrow> hand \<Rightarrow> nat list \<Rightarrow> (error + hand \<times> hand \<times> nat list) option" where
  "deal_cards 0 num_ranks card_freq h draws = Some (Inr (card_freq, h, draws))"
| "deal_cards (Suc n) num_ranks card_freq h draws =
     (case deal_card num_ranks card_freq h draws of
        None \<Rightarrow> None
      | Some (Inl e) \<Rightarrow> Some (Inl e)
      | Some (Inr (card_freq', h', draws')) \<Rightarrow> deal_cards n num_ranks card_freq' h' draws')"

text \<open>
  \<open>for p in range(self.num_players-1)\<close>, over the entries of \<open>cards_per_player\<close> for these
  players; every player starts with the empty hand \<open>np.array([0] * NUM_RANKS)\<close>.
\<close>

fun deal_players ::
  "nat list \<Rightarrow> nat \<Rightarrow> hand \<Rightarrow> nat list \<Rightarrow> (error + hand list \<times> hand \<times> nat list) option" where
  "deal_players [] num_ranks card_freq draws = Some (Inr ([], card_freq, draws))"
| "deal_players (n # ns) num_ranks card_freq draws =
     (case deal_cards n num_ranks card_freq (replicate num_ranks 0) draws of
        None \<Rightarrow> None
      | Some (Inl e) \<Rightarrow> Some (Inl e)
      | Some (Inr (card_freq', h, draws')) \<Rightarrow>
          (case deal_players ns num_ranks card_freq' draws' of
             None \<Rightarrow> None
           | Some (Inl e) \<Rightarrow> Some (Inl e)
           | Some (Inr (hs, card_freq'', draws'')) \<Rightarrow> Some (Inr (h # hs, card_freq'', draws''))))"

text \<open>
  The constants of \<open>consts.py\<close> that \<open>reset\<close> reads, and the configuration of the
  environment.  \<open>cards_per_player\<close> is the entry of \<open>CARDS_PER_PLAYER\<close> for the number of
  players and decks, if there is one.  The entries of \<open>CARD_FREQ\<close> are \<open>int64\<close> values.
\<close>

record config =
  CARD_FREQ :: "int list"
  NUM_RANKS :: nat
  cards_per_player :: "nat list option"
  cfg_num_players :: nat
  cfg_num_decks :: nat
  cfg_moveset :: "pattern list"
  cfg_has_user :: bool

text \<open>
  \<open>GameEnv.reset\<close> as the constructor calls it (the hands do not exist before): the deck
  \<open>np.array(CARD_FREQ) * num_decks\<close>, the deal for four players, in which the entry of
  \<open>cards_per_player\<close> is looked up when the turn of the player comes, the rotation by the
  drawn \<open>order\<close>, and the players.  With another number of players nothing is dealt:
  \<open>random.randint(0, num_players - 1)\<close> raises \<open>ValueError\<close> when there is no player, and
  otherwise \<open>self.hands\<close> does not exist.  The history is the one of the environment, which
  \<open>reset\<close> does not touch.  The variables of \<open>play_game\<close> are set by \<open>start_game\<close>.
\<close>

definition reset ::
  "config \<Rightarrow> entry list \<Rightarrow> string list \<Rightarrow> nat list \<Rightarrow> nat \<Rightarrow> (error + game) option" where
  "reset cfg hist keyboard draws order =
     (case cards_per_player cfg of
        None \<Rightarrow> Some (Inl KeyError)
      | Some cpp \<Rightarrow>
          if cfg_num_players cfg = 4 then
            (case deal_players (take 3 cpp) (NUM_RANKS cfg)
                    (map (\<lambda>f. wrap64 (f * int (cfg_num_decks cfg))) (CARD_FREQ cfg)) draws of
               None \<Rightarrow> None
             | Some (Inl e) \<Rightarrow> Some (Inl e)
             | Some (Inr (hs, card_freq, draws')) \<Rightarrow>
                 if length cpp < 3 then Some (Inl IndexError)
                 else
                   let hands = hs @ [card_freq];
                       hands' = drop order hands @ take order hands
                   in Some (Inr
                        \<lparr>num_players = cfg_num_players cfg,
                         players =
                           map (\<lambda>p. \<lparr>policy = (if cfg_has_user cfg \<and> p = cfg_num_players cfg - 1
                                                then User else Naive),
                                      hand = p, free = False\<rparr>)
                             [0..<cfg_num_players cfg],
                         moveset = cfg_moveset cfg,
                         store = hands',
                         history = hist,
                         inputs = keyboard,
                         curr_player = 0, pattern = None, prev_choice = None,
                         leading_rank = None, skip_count = 0\<rparr>))
          else if cfg_num_players cfg = 0 then Some (Inl ValueError)
          else Some (Inl AttributeError))"

section \<open>Reading the state\<close>

text \<open>The hand a player holds, all hands in the order of the players, and the total.\<close>

definition hand_of :: "game \<Rightarrow> nat \<Rightarrow> hand" where
  "hand_of g i = store g ! hand (players g ! i)"

definition hands_of :: "game \<Rightarrow> hand list" where
  "hands_of g = map (\<lambda>pl. store g ! hand pl) (players g)"

text \<open>
  What \<open>reset\<close> establishes for the players: one player per seat, and every player holds an
  array of its own in the store.
\<close>

definition players_ok :: "game \<Rightarrow> bool" where
  "players_ok g \<longleftrightarrow>
     length (players g) = num_players g \<and>
     distinct (map hand (players g)) \<and>
     list_all (\<lambda>pl. hand pl < length (store g)) (players g)"

text \<open>The arrays a history entry refers to.\<close>

definition entry_addrs :: "entry \<Rightarrow> addr list" where
  "entry_addrs e = snap_hands (ent_state e) @ snap_hands (ent_new_state e)"

text \<open>
  The arrays of the history are in the store and none of them is the hand of a player.
\<close>

definition history_ok :: "game \<Rightarrow> bool" where
  "history_ok g \<longleftrightarrow>
     list_all (\<lambda>e. list_all (\<lambda>a. a < length (store g) \<and> a \<notin> set (map hand (players g)))
                      (entry_addrs e)) (history g)"

text \<open>
  A history entry as its reader sees it: the two snapshots with the contents of their arrays,
  the action and the reward.
\<close>

definition read_snapshot :: "store \<Rightarrow> snapshot \<Rightarrow> nat \<times> hand list \<times> bool" where
  "read_snapshot st sn = (snap_curr_player sn, map (\<lambda>a. st ! a) (snap_hands sn), snap_free sn)"

definition read_entry ::
  "store \<Rightarrow> entry \<Rightarrow> (nat \<times> hand list \<times> bool) \<times> action \<times> (nat \<times> hand list \<times> bool) \<times> rat" where
  "read_entry st e =
     (read_snapshot st (ent_state e), ent_action e, read_snapshot st (ent_new_state e),
      ent_reward e)"

text \<open>
  No hand holds a negative count; every hand has \<open>n\<close> ranks; the cards held of a rank, over all
  players; all cards held.
\<close>

definition hands_nonneg :: "game \<Rightarrow> bool" where
  "hands_nonneg g \<longleftrightarrow> list_all (list_all (\<lambda>x. 0 \<le> x)) (hands_of g)"

text \<open>
  Every hand holds fewer than \<open>2 ^ 63\<close> cards: with counts that are not negative, no count and
  no sum of a hand is outside \<open>int64\<close>.
\<close>

definition hands_int64 :: "game \<Rightarrow> bool" where
  "hands_int64 g \<longleftrightarrow> list_all (\<lambda>h. sum_list h < 9223372036854775808) (hands_of g)"

definition ranked :: "nat \<Rightarrow> game \<Rightarrow> bool" where
  "ranked n g \<longleftrightarrow> list_all (\<lambda>h. length h = n) (hands_of g)"

definition held :: "game \<Rightarrow> nat \<Rightarrow> int" where
  "held g k = sum_list (map (\<lambda>h. h ! k) (hands_of g))"

definition total_cards :: "game \<Rightarrow> int" where
  "total_cards g = sum_list (map sum_list (hands_of g))"

text \<open>
  The cards of a rank played so far: the choices of the history entries that played a pattern.
\<close>

definition played :: "entry list \<Rightarrow> nat \<Rightarrow> int" where
  "played hist k =
     sum_list (map (\<lambda>e. if act_contains_pattern (ent_action e)
                          then (case act_choice (ent_action e) of Some ch \<Rightarrow> ch ! k | None \<Rightarrow> 0)
                          else 0) hist)"

text \<open>
  What the spec says of the interactive policy: the cards named are resolved into a choice
  vector and validated for sufficient hand availability.  An accepted choice that plays a
  pattern is a count vector of the shape of the hand and does not exceed it.
\<close>

definition reader_legal :: "ctx \<Rightarrow> bool" where
  "reader_legal c \<longleftrightarrow>
     (\<forall>user_cards pat leading h.
        case read_user_cards c user_cards pat leading h of
          (contains, pat', choice, user_rank, valid_input) \<Rightarrow>
            valid_input \<and> contains \<longrightarrow>
              length choice = length h \<and> list_all (\<lambda>x. 0 \<le> x) choice \<and>
              list_all2 (\<le>) choice h)"

text \<open>All players are automatic.\<close>

definition all_naive :: "game \<Rightarrow> bool" where
  "all_naive g \<longleftrightarrow> list_all (\<lambda>pl. policy pl = Naive) (players g)"

text \<open>
  A move set with which a free player who holds a card can always play: every pattern asks
  for at least one card, and one pattern is the single card.
\<close>

definition playable :: "(pattern \<Rightarrow> shape) \<Rightarrow> pattern list \<Rightarrow> bool" where
  "playable cat ms \<longleftrightarrow>
     list_all (\<lambda>p. 1 \<le> extent (cat p) \<and> 1 \<le> copies_per_rank (cat p)) ms \<and>
     list_ex (\<lambda>p. extent (cat p) = 1 \<and> copies_per_rank (cat p) = 1) ms"

text \<open>\<open>random.shuffle\<close> permutes.\<close>

definition shuffle_permutes :: "ctx \<Rightarrow> bool" where
  "shuffle_permutes c \<longleftrightarrow> (\<forall>k ms. mset (shuffle c k ms) = mset ms)"

text \<open>
  The history of \<open>g\<close> is kept in \<open>g'\<close>: it is a prefix of the history of \<open>g'\<close>, and every
  entry of it reads in the store of \<open>g'\<close> as it reads in the store of \<open>g\<close>.
\<close>

definition frozen :: "game \<Rightarrow> game \<Rightarrow> bool" where
  "frozen g g' \<longleftrightarrow>
     (\<exists>es. history g' = history g @ es) \<and>
     (\<forall>e \<in> set (history g). read_entry (store g') e = read_entry (store g) e)"

section \<open>Examples\<close>

text \<open>
  Three ranks with the tokens 3, 4 and 5; the shuffle reverses the move set; the reader
  accepts the empty line as a pass and the line \<open>3\<close> as a single of the lowest rank when that
  is a legal opening.
\<close>

definition reader0 ::
  "string \<Rightarrow> pattern option \<Rightarrow> lead \<Rightarrow> hand \<Rightarrow> bool \<times> pattern option \<times> int list \<times> lead \<times> bool" where
  "reader0 user_cards pat leading h =
     (if user_cards = [] then (False, pat, replicate (length h) 0, leading, True)
      else if user_cards = ''3'' \<and> pat = Some ''1x1'' \<and> leading = None \<and> 0 < length h \<and>
              1 \<le> h ! 0 \<and> list_all (\<lambda>x. 0 \<le> x) h
        then (True, pat, (replicate (length h) 0)[0 := 1], Some 0, True)
      else (False, pat, [], leading, False))"

definition ctx0 :: ctx where
  "ctx0 = \<lparr>catalog = catalog0, shuffle = (\<lambda>k ms. rev ms), read_user_cards = reader0,
           card_tokens = [''3'', ''4'', ''5'']\<rparr>"

definition table0 :: game where
  "table0 =
     \<lparr>num_players = 4,
      players = [\<lparr>policy = Naive, hand = 0, free = False\<rparr>,
                 \<lparr>policy = Naive, hand = 1, free = False\<rparr>,
                 \<lparr>policy = Naive, hand = 2, free = False\<rparr>,
                 \<lparr>policy = Naive, hand = 3, free = False\<rparr>],
      moveset = [''1x1'', ''1x2''],
      store = [[1, 0, 2], [0, 2, 1], [2, 1, 0], [1, 1, 1]],
      history = [], inputs = [],
      curr_player = 0, pattern = None, prev_choice = None, leading_rank = None,
      skip_count = 0\<rparr>"

text \<open>
  A configuration from which \<open>reset\<close> deals the hands of the table: two decks of two cards
  of each of three ranks, three cards for each of the first three players.
\<close>

definition cfg0 :: config where
  "cfg0 = \<lparr>CARD_FREQ = [2, 2, 2], NUM_RANKS = 3, cards_per_player = Some [3, 3, 3, 3],
            cfg_num_players = 4, cfg_num_decks = 2, cfg_moveset = [''1x1'', ''1x2''],
            cfg_has_user = False\<rparr>"

text \<open>The same table with a user in the last seat, who names singles and then passes.\<close>

definition table1 :: game where
  "table1 =
     table0\<lparr>players := (players table0)[3 := \<lparr>policy = User, hand = 3, free = False\<rparr>],
            inputs := [''1x1'', []]\<rparr>"

text \<open>The example game, started by the player in seat 2, after \<open>k + 1\<close> iterations.\<close>

definition table_after :: "nat \<Rightarrow> game" where
  "table_after k = game_states ctx0 (Suc k) (start_game table0 2) ! k"

section \<open>Properties of the selection engine\<close>

lemma candidates_sorted: "sorted (candidates h sh l)"
  unfolding candidates_def by (simp add: sorted_wrt_filter)

lemma candidates_iff:
  "r \<in> set (candidates h sh l) \<longleftrightarrow>
     r < length h \<and> available h sh r \<and> outranks (representative sh r) l"
  by (auto simp: candidates_def)

lemma candidates_head_least:
  assumes "candidates h sh l = r # rs" and "r' \<in> set (candidates h sh l)"
  shows "r \<le> r'"
proof -
  have "sorted (r # rs)" using candidates_sorted[of h sh l] assms(1) by simp
  then show ?thesis using assms by auto
qed

lemma representative_mono: "r \<le> r' \<Longrightarrow> representative sh r \<le> representative sh r'"
  by (simp add: representative_def)

lemma found_iff:
  "sel_found (find_smallest_valid_choice cat h p l) \<longleftrightarrow> candidates h (cat p) l \<noteq> []"
  by (simp add: find_smallest_valid_choice_def split: list.splits)

lemma found_selection:
  assumes "sel_found (find_smallest_valid_choice cat h p l)"
  shows "\<exists>r rs. candidates h (cat p) l = r # rs \<and>
           find_smallest_valid_choice cat h p l =
             \<lparr>sel_found = True, sel_pattern = p, sel_choice = mark (length h) (cat p) r,
              sel_rank = Some (representative (cat p) r)\<rparr>"
  using assms by (auto simp: find_smallest_valid_choice_def split: list.splits)

lemma mark_le_available:
  assumes "r + extent sh \<le> length h" and "list_all2 (\<le>) (mark (length h) sh r) h"
  shows "available h sh r"
proof -
  have "int (copies_per_rank sh) \<le> h ! k" if "r \<le> k" "k < r + extent sh" for k
  proof -
    have k: "k < length h" using that assms(1) by simp
    have "mark (length h) sh r ! k \<le> h ! k"
      using assms(2) k by (simp add: list_all2_conv_all_nth mark_def)
    then show ?thesis using that k by (simp add: mark_def)
  qed
  then show ?thesis using assms(1) by (simp add: available_def list_all_iff)
qed

text \<open>
  C1 (outrank correctness).  Whenever the engine is called with a leading rank that is not
  "none" and reports found, it returns a representative rank, and that rank is strictly greater
  than the leading rank.
\<close>

theorem outrank_correctness:
  assumes "sel_found (find_smallest_valid_choice cat h p (Some l))"
  shows "\<exists>t. sel_rank (find_smallest_valid_choice cat h p (Some l)) = Some t \<and> l < t"
proof -
  from found_selection[OF assms] obtain r rs where
    c: "candidates h (cat p) (Some l) = r # rs" and
    e: "sel_rank (find_smallest_valid_choice cat h p (Some l)) = Some (representative (cat p) r)"
    by auto
  have "r \<in> set (candidates h (cat p) (Some l))" using c by simp
  then have "l < representative (cat p) r" by (simp add: candidates_iff outranks_def)
  with e show ?thesis by simp
qed

theorem outrank_correctness_witness:
  "sel_found (find_smallest_valid_choice catalog0 [1, 0, 2] ''1x1'' (Some 0)) \<and>
   (\<exists>t. sel_rank (find_smallest_valid_choice catalog0 [1, 0, 2] ''1x1'' (Some 0)) = Some t
        \<and> 0 < t)"
proof -
  have f: "sel_found (find_smallest_valid_choice catalog0 [1, 0, 2] ''1x1'' (Some 0))"
    by code_simp
  show ?thesis using f outrank_correctness[OF f] by simp
qed

text \<open>
  C2 (minimality).  Whenever the engine reports found, the returned choice is the one that
  starts at the first candidate in ascending rank order, and its representative rank is at
  most the representative rank \<open>t\<close> of every legal choice \<open>c\<close> for the same hand, pattern
  and leading rank.
\<close>

theorem minimality:
  assumes "sel_found (find_smallest_valid_choice cat h p l)"
    and "legal_choice cat h p l c t"
  shows "\<exists>r. hd (candidates h (cat p) l) = r \<and>
              sel_choice (find_smallest_valid_choice cat h p l) = mark (length h) (cat p) r \<and>
              sel_rank (find_smallest_valid_choice cat h p l) = Some (representative (cat p) r) \<and>
              representative (cat p) r \<le> t"
proof -
  from found_selection[OF assms(1)] obtain r rs where
    c: "candidates h (cat p) l = r # rs" and
    e: "find_smallest_valid_choice cat h p l =
             \<lparr>sel_found = True, sel_pattern = p, sel_choice = mark (length h) (cat p) r,
              sel_rank = Some (representative (cat p) r)\<rparr>"
    by auto
  from assms(2) obtain r' where r': "r' < length h" "r' + extent (cat p) \<le> length h"
      "c = mark (length h) (cat p) r'" "t = representative (cat p) r'"
      "list_all2 (\<le>) c h" "outranks t l"
    by (auto simp: legal_choice_def list_ex_iff)
  have "available h (cat p) r'" using mark_le_available r' by simp
  then have "r' \<in> set (candidates h (cat p) l)" using r' by (simp add: candidates_iff)
  then have "r \<le> r'" using candidates_head_least[OF c] by simp
  then have "representative (cat p) r \<le> t" using r'(4) representative_mono by simp
  then show ?thesis using c e by simp
qed

theorem minimality_witness:
  "sel_found (find_smallest_valid_choice catalog0 [1, 0, 2, 2, 3, 2] ''3x2'' None) \<and>
   legal_choice catalog0 [1, 0, 2, 2, 3, 2] ''3x2'' None [0, 0, 0, 2, 2, 2] 5 \<and>
   sel_choice (find_smallest_valid_choice catalog0 [1, 0, 2, 2, 3, 2] ''3x2'' None)
     = [0, 0, 2, 2, 2, 0] \<and>
   sel_rank (find_smallest_valid_choice catalog0 [1, 0, 2, 2, 3, 2] ''3x2'' None) = Some 4"
proof -
  have f: "sel_found (find_smallest_valid_choice catalog0 [1, 0, 2, 2, 3, 2] ''3x2'' None)"
    by code_simp
  have g: "legal_choice catalog0 [1, 0, 2, 2, 3, 2] ''3x2'' None [0, 0, 0, 2, 2, 2] 5"
    by code_simp
  have h: "hd (candidates [1, 0, 2, 2, 3, 2] (catalog0 ''3x2'') None) = 2"
    by code_simp
  have m: "mark (length [1, 0, 2, 2, 3, 2 :: int]) (catalog0 ''3x2'') 2 = [0, 0, 2, 2, 2, 0]"
    by code_simp
  have r: "representative (catalog0 ''3x2'') 2 = 4"
    by code_simp
  show ?thesis using f g minimality[OF f g] h m r by simp
qed

section \<open>The effect of a move\<close>

lemma clear_free_id: "\<not> free pl \<Longrightarrow> pl\<lparr>free := False\<rparr> = pl"
  by (cases pl) simp

lemma isub_length: "isub h ch = Inr h' \<Longrightarrow> length h' = length h"
  by (auto simp: isub_def split: if_splits)

lemma naive_move_form:
  assumes "naive_move c g i pat ld = Inr (g', out)"
  shows "\<exists>ms' h'. g' = g\<lparr>players := (players g)[i := (players g ! i)\<lparr>free := False\<rparr>],
                       moveset := ms',
                       store := (store g)[hand (players g ! i) := h']\<rparr> \<and>
          out_remainder out = np_sum h' \<and>
          (if out_contains out
           then \<exists>ch. out_choice out = Some ch \<and> isub (store g ! hand (players g ! i)) ch = Inr h'
           else h' = store g ! hand (players g ! i))"
proof -
  let ?pl = "players g ! i"
  let ?h = "store g ! hand ?pl"
  let ?g1 = "if free ?pl
             then g\<lparr>players := (players g)[i := ?pl\<lparr>free := False\<rparr>],
                    moveset := shuffle c (length (history g)) (moveset g)\<rparr>
             else g"
  obtain ms' where g1: "?g1 = g\<lparr>players := (players g)[i := ?pl\<lparr>free := False\<rparr>], moveset := ms'\<rparr>"
  proof (cases "free ?pl")
    case True
    then show ?thesis using that by simp
  next
    case False
    then have "(players g)[i := ?pl\<lparr>free := False\<rparr>] = players g"
      by (simp add: clear_free_id)
    then have "?g1 = g\<lparr>players := (players g)[i := ?pl\<lparr>free := False\<rparr>], moveset := moveset g\<rparr>"
      using False by simp
    then show ?thesis using that by blast
  qed
  obtain sel where sel: "naive_select c g i pat ld = Inr sel"
    using assms by (cases "naive_select c g i pat ld") (auto simp: naive_move_def Let_def)
  show ?thesis
  proof (cases "sel_found sel")
    case True
    then obtain h' where h': "isub ?h (sel_choice sel) = Inr h'"
      using assms sel by (cases "isub ?h (sel_choice sel)") (auto simp: naive_move_def Let_def)
    have "g' = ?g1\<lparr>store := (store ?g1)[hand ?pl := h']\<rparr>"
      and o: "out = \<lparr>out_contains = True, out_pattern = Some (sel_pattern sel),
                    out_choice = Some (sel_choice sel), out_rank = sel_rank sel,
                    out_remainder = np_sum h'\<rparr>"
      using assms sel True h' by (auto simp: naive_move_def Let_def)
    then have "g' = g\<lparr>players := (players g)[i := ?pl\<lparr>free := False\<rparr>], moveset := ms',
                      store := (store g)[hand ?pl := h']\<rparr>"
      using g1 by (simp split: if_splits)
    then show ?thesis using o h' by auto
  next
    case False
    have "g' = ?g1"
      and o: "out = \<lparr>out_contains = False, out_pattern = Some (sel_pattern sel),
                    out_choice = Some (sel_choice sel), out_rank = sel_rank sel,
                    out_remainder = np_sum ?h\<rparr>"
      using assms sel False by (auto simp: naive_move_def Let_def)
    then have "g' = g\<lparr>players := (players g)[i := ?pl\<lparr>free := False\<rparr>], moveset := ms',
                      store := (store g)[hand ?pl := ?h]\<rparr>"
      using g1 by (simp split: if_splits)
    then show ?thesis using o by auto
  qed
qed

lemma user_move_form:
  assumes "user_move c g i pat ld = Inr (g', out)"
  shows "\<exists>ins' h'. g' = g\<lparr>players := (players g)[i := (players g ! i)\<lparr>free := False\<rparr>],
                       inputs := ins',
                       store := (store g)[hand (players g ! i) := h']\<rparr> \<and>
          out_remainder out = np_sum h' \<and>
          (if out_contains out
           then \<exists>ch. out_choice out = Some ch \<and> isub (store g ! hand (players g ! i)) ch = Inr h'
           else h' = store g ! hand (players g ! i))"
proof -
  let ?pl = "players g ! i"
  let ?h = "store g ! hand ?pl"
  obtain contains pat' choice user_rank leading' rest where
    l: "user_loop c (moveset g) (free ?pl) ?h pat ld (inputs g) =
          Inr ((contains, pat', choice, user_rank), leading', rest)"
    using assms
    by (cases "user_loop c (moveset g) (free ?pl) ?h pat ld (inputs g)")
       (auto simp: user_move_def Let_def)
  let ?g1 = "g\<lparr>players := (players g)[i := ?pl\<lparr>free := False\<rparr>], inputs := rest\<rparr>"
  show ?thesis
  proof (cases contains)
    case True
    then obtain h' where h': "isub ?h choice = Inr h'"
      using assms l by (cases "isub ?h choice") (auto simp: user_move_def Let_def)
    have "g' = ?g1\<lparr>store := (store ?g1)[hand ?pl := h']\<rparr>"
      and o: "out = \<lparr>out_contains = True, out_pattern = pat', out_choice = Some choice,
                       out_rank = user_rank, out_remainder = np_sum h'\<rparr>"
      using assms l True h' by (auto simp: user_move_def Let_def)
    then show ?thesis using h' by auto
  next
    case False
    have "g' = ?g1"
      and o: "out = \<lparr>out_contains = False, out_pattern = pat', out_choice = Some choice,
                      out_rank = leading', out_remainder = np_sum ?h\<rparr>"
      using assms l False by (auto simp: user_move_def Let_def)
    then have "g' = g\<lparr>players := (players g)[i := ?pl\<lparr>free := False\<rparr>], inputs := rest,
                      store := (store g)[hand ?pl := ?h]\<rparr>"
      by simp
    then show ?thesis using o by auto
  qed
qed

lemma move_form:
  assumes "move c g i pat ld = Inr (g', out)"
  shows "\<exists>ms' ins' h'. g' = g\<lparr>players := (players g)[i := (players g ! i)\<lparr>free := False\<rparr>],
                       moveset := ms', inputs := ins',
                       store := (store g)[hand (players g ! i) := h']\<rparr> \<and>
          out_remainder out = np_sum h' \<and>
          (if out_contains out
           then \<exists>ch. out_choice out = Some ch \<and> isub (store g ! hand (players g ! i)) ch = Inr h'
           else h' = store g ! hand (players g ! i))"
proof (cases "policy (players g ! i)")
  case Naive
  then have "naive_move c g i pat ld = Inr (g', out)" using assms by (simp add: move_def)
  from naive_move_form[OF this] obtain ms' h' where
    "g' = g\<lparr>players := (players g)[i := (players g ! i)\<lparr>free := False\<rparr>],
                       moveset := ms',
                       store := (store g)[hand (players g ! i) := h']\<rparr>"
    and r: "out_remainder out = np_sum h' \<and>
          (if out_contains out
           then \<exists>ch. out_choice out = Some ch \<and> isub (store g ! hand (players g ! i)) ch = Inr h'
           else h' = store g ! hand (players g ! i))" by blast
  then have "g' = g\<lparr>players := (players g)[i := (players g ! i)\<lparr>free := False\<rparr>],
                       moveset := ms', inputs := inputs g,
                       store := (store g)[hand (players g ! i) := h']\<rparr>" by simp
  then show ?thesis using r by blast
next
  case User
  then have "user_move c g i pat ld = Inr (g', out)" using assms by (simp add: move_def)
  from user_move_form[OF this] obtain ins' h' where
    "g' = g\<lparr>players := (players g)[i := (players g ! i)\<lparr>free := False\<rparr>],
                       inputs := ins',
                       store := (store g)[hand (players g ! i) := h']\<rparr>"
    and r: "out_remainder out = np_sum h' \<and>
          (if out_contains out
           then \<exists>ch. out_choice out = Some ch \<and> isub (store g ! hand (players g ! i)) ch = Inr h'
           else h' = store g ! hand (players g ! i))" by blast
  then have "g' = g\<lparr>players := (players g)[i := (players g ! i)\<lparr>free := False\<rparr>],
                       moveset := moveset g, inputs := ins',
                       store := (store g)[hand (players g ! i) := h']\<rparr>" by simp
  then show ?thesis using r by blast
qed

section \<open>The effect of a step\<close>

lemma get_state_fst: "fst (get_state g cp) = g\<lparr>store := store g @ hands_of g\<rparr>"
  by (simp add: get_state_def hands_of_def Let_def)

lemma get_state_snd:
  "snd (get_state g cp) =
     \<lparr>snap_curr_player = cp,
      snap_hands = [length (store g)..<length (store g) + length (players g)],
      snap_free = free (players g ! cp)\<rparr>"
  by (simp add: get_state_def Let_def)

lemma step_Inr_elim:
  assumes "step c g = Inr (g', over)"
  obtains g2 out where "curr_player g < length (players g)"
    and "move c (mark_free (fst (get_state g (curr_player g)))) (curr_player g)
           (pattern g) (leading_rank g) = Inr (g2, out)"
    and "record_turn g2 (curr_player g) (snd (get_state g (curr_player g))) out = Inr (g', over)"
proof -
  have lt: "curr_player g < length (players g)"
    using assms by (auto simp: step_def Let_def split: if_splits)
  obtain g1 cs where gs: "get_state g (curr_player g) = (g1, cs)" by (cases "get_state g (curr_player g)")
  have p: "pattern g1 = pattern g" "leading_rank g1 = leading_rank g"
    using gs by (auto simp: get_state_def Let_def)
  obtain g2 out where m: "move c (mark_free g1) (curr_player g) (pattern g) (leading_rank g) = Inr (g2, out)"
    using assms lt gs p
    by (cases "move c (mark_free g1) (curr_player g) (pattern g) (leading_rank g)")
       (auto simp: step_def Let_def)
  have "record_turn g2 (curr_player g) cs out = Inr (g', over)"
    using assms lt gs p m by (simp add: step_def Let_def)
  then show ?thesis using that[of g2 out] lt m gs by simp
qed

lemma mark_free_players:
  "players (mark_free g) =
     (if int (skip_count g) = int (num_players g) - 1
      then (players g)[curr_player g := (players g ! curr_player g)\<lparr>free := True\<rparr>]
      else players g)"
  by (simp add: mark_free_def)

lemma nth_hand_set_free [simp]: "hand (ps[i := (ps ! i)\<lparr>free := b\<rparr>] ! j) = hand (ps ! j)"
  by (cases "i < length ps"; cases "j = i") (simp_all add: list_update_beyond)

lemma nth_policy_set_free [simp]: "policy (ps[i := (ps ! i)\<lparr>free := b\<rparr>] ! j) = policy (ps ! j)"
  by (cases "i < length ps"; cases "j = i") (simp_all add: list_update_beyond)

lemma map_hand_set_free [simp]: "map hand (ps[i := (ps ! i)\<lparr>free := b\<rparr>]) = map hand ps"
  by (simp add: list_eq_iff_nth_eq)

lemma map_policy_set_free [simp]: "map policy (ps[i := (ps ! i)\<lparr>free := b\<rparr>]) = map policy ps"
  by (simp add: list_eq_iff_nth_eq)

lemma mark_free_hand [simp]: "map hand (players (mark_free g)) = map hand (players g)"
  by (simp add: mark_free_def)

lemma mark_free_fields [simp]:
  "store (mark_free g) = store g" "history (mark_free g) = history g"
  "num_players (mark_free g) = num_players g" "curr_player (mark_free g) = curr_player g"
  "moveset (mark_free g) = moveset g" "inputs (mark_free g) = inputs g"
  "length (players (mark_free g)) = length (players g)"
  by (simp_all add: mark_free_def)

lemma mark_free_nth_hand [simp]: "hand (players (mark_free g) ! i) = hand (players g ! i)"
  by (simp add: mark_free_def)

lemma mark_free_nth_policy [simp]: "policy (players (mark_free g) ! i) = policy (players g ! i)"
  by (simp add: mark_free_def)

lemma set_free_twice:
  "i < length ps \<Longrightarrow>
   (ps[i := (ps ! i)\<lparr>free := b\<rparr>])[i := (ps[i := (ps ! i)\<lparr>free := b\<rparr>] ! i)\<lparr>free := b'\<rparr>]
     = ps[i := (ps ! i)\<lparr>free := b'\<rparr>]"
  by simp

lemma move_after_mark:
  assumes "move c (mark_free g) (curr_player g) pat ld = Inr (g2, out)"
    and "curr_player g < length (players g)"
  shows "\<exists>ms' ins' h'.
          g2 = g\<lparr>players := (players g)[curr_player g := (players g ! curr_player g)\<lparr>free := False\<rparr>],
                 moveset := ms', inputs := ins',
                 store := (store g)[hand (players g ! curr_player g) := h'],
                 skip_count := (if int (skip_count g) = int (num_players g) - 1 then 0
                                else skip_count g)\<rparr> \<and>
          out_remainder out = np_sum h' \<and>
          (if out_contains out
           then \<exists>ch. out_choice out = Some ch \<and>
                     isub (store g ! hand (players g ! curr_player g)) ch = Inr h'
           else h' = store g ! hand (players g ! curr_player g))"
proof -
  from move_form[OF assms(1)] obtain ms' ins' h' where
    g2: "g2 = (mark_free g)\<lparr>players := (players (mark_free g))
                   [curr_player g := (players (mark_free g) ! curr_player g)\<lparr>free := False\<rparr>],
                 moveset := ms', inputs := ins',
                 store := (store (mark_free g))[hand (players (mark_free g) ! curr_player g) := h']\<rparr>"
    and r0: "out_remainder out = np_sum h' \<and>
          (if out_contains out
           then \<exists>ch. out_choice out = Some ch \<and>
                     isub (store (mark_free g) ! hand (players (mark_free g) ! curr_player g)) ch = Inr h'
           else h' = store (mark_free g) ! hand (players (mark_free g) ! curr_player g))"
    by blast
  have r: "out_remainder out = np_sum h' \<and>
          (if out_contains out
           then \<exists>ch. out_choice out = Some ch \<and>
                     isub (store g ! hand (players g ! curr_player g)) ch = Inr h'
           else h' = store g ! hand (players g ! curr_player g))"
    using r0 by (simp cong: if_cong)
  have "g2 = g\<lparr>players := (players g)[curr_player g := (players g ! curr_player g)\<lparr>free := False\<rparr>],
                 moveset := ms', inputs := ins',
                 store := (store g)[hand (players g ! curr_player g) := h'],
                 skip_count := (if int (skip_count g) = int (num_players g) - 1 then 0
                                else skip_count g)\<rparr>"
    unfolding g2 using assms(2) by (simp add: mark_free_def)
  then show ?thesis using r by blast
qed


lemma nth_append_store:
  "a < length st \<Longrightarrow> (st @ xs) ! a = st ! a"
  by (simp add: nth_append)

lemma step_form [consumes 2, case_names turn]:
  assumes "step c g = Inr (g', over)" and "players_ok g"
  obtains ms' ins' h' and out :: outcome where
    "curr_player g < length (players g)"
    and "g' = g\<lparr>players := (players g)[curr_player g := (players g ! curr_player g)\<lparr>free := False\<rparr>],
            moveset := ms', inputs := ins',
            store := (store g @ hands_of g)[hand (players g ! curr_player g) := h'] @
                     map (\<lambda>pl. (store g @ hands_of g)[hand (players g ! curr_player g) := h'] ! hand pl)
                       ((players g)[curr_player g := (players g ! curr_player g)\<lparr>free := False\<rparr>]),
            history := history g @
              [\<lparr>ent_state =
                  \<lparr>snap_curr_player = curr_player g,
                   snap_hands = [length (store g)..<length (store g) + length (players g)],
                   snap_free = free (players g ! curr_player g)\<rparr>,
                ent_action =
                  \<lparr>act_player = curr_player g, act_contains_pattern = out_contains out,
                   act_pattern = out_pattern out, act_choice = out_choice out,
                   act_leading_rank = out_rank out\<rparr>,
                ent_new_state =
                  \<lparr>snap_curr_player = curr_player g,
                   snap_hands = [length (store g) + length (players g)..<
                                 length (store g) + length (players g) + length (players g)],
                   snap_free = False\<rparr>,
                ent_reward = calculate_reward (curr_player g) (out_contains out) (np_sum h')\<rparr>],
            pattern := out_pattern out, prev_choice := out_choice out,
            leading_rank := out_rank out,
            skip_count := (if out_contains out then 0
                           else (if int (skip_count g) = int (num_players g) - 1 then 0
                                 else skip_count g) + 1),
            curr_player := (if over then curr_player g
                            else (curr_player g + 1) mod num_players g)\<rparr>"
    and "over = (np_sum h' \<le> 0)"
    and "if out_contains out
      then \<exists>ch. out_choice out = Some ch \<and>
                isub (store g ! hand (players g ! curr_player g)) ch = Inr h'
      else h' = store g ! hand (players g ! curr_player g)"
proof -
  let ?cp = "curr_player g"
  let ?a = "hand (players g ! ?cp)"
  let ?g1 = "g\<lparr>store := store g @ hands_of g\<rparr>"
  from step_Inr_elim[OF assms(1)] obtain g2 out where
    lt: "?cp < length (players g)" and
    m: "move c (mark_free ?g1) ?cp (pattern g) (leading_rank g) = Inr (g2, out)" and
    rt: "record_turn g2 ?cp (snd (get_state g ?cp)) out = Inr (g', over)"
    by (auto simp: get_state_fst)
  have a: "?a < length (store g)"
    using assms(2) lt by (simp add: players_ok_def list_all_length)
  have m': "move c (mark_free ?g1) (curr_player ?g1) (pattern g) (leading_rank g) = Inr (g2, out)"
    using m by simp
  have "\<exists>ms' ins' h'.
      g2 = ?g1\<lparr>players := (players g)[?cp := (players g ! ?cp)\<lparr>free := False\<rparr>],
                 moveset := ms', inputs := ins',
                 store := (store g @ hands_of g)[?a := h'],
                 skip_count := (if int (skip_count g) = int (num_players g) - 1 then 0
                                else skip_count g)\<rparr> \<and>
      out_remainder out = np_sum h' \<and>
      (if out_contains out
           then \<exists>ch. out_choice out = Some ch \<and> isub ((store g @ hands_of g) ! ?a) ch = Inr h'
           else h' = (store g @ hands_of g) ! ?a)"
    using move_after_mark[OF m'] lt by (simp cong: if_cong)
  then obtain ms' ins' h' where
    g2: "g2 = ?g1\<lparr>players := (players g)[?cp := (players g ! ?cp)\<lparr>free := False\<rparr>],
                 moveset := ms', inputs := ins',
                 store := (store g @ hands_of g)[?a := h'],
                 skip_count := (if int (skip_count g) = int (num_players g) - 1 then 0
                                else skip_count g)\<rparr>" and
    rem: "out_remainder out = np_sum h'" and
    eff: "if out_contains out
           then \<exists>ch. out_choice out = Some ch \<and> isub ((store g @ hands_of g) ! ?a) ch = Inr h'
           else h' = (store g @ hands_of g) ! ?a"
    by blast
  have eff': "if out_contains out
           then \<exists>ch. out_choice out = Some ch \<and> isub (store g ! ?a) ch = Inr h'
           else h' = store g ! ?a"
    using eff a by (simp add: nth_append cong: if_cong)
  have ov: "over = (np_sum h' \<le> 0)"
    using rt rem by (auto simp: record_turn_def get_state_def Let_def split: if_splits)
  have G: "g' = g\<lparr>players := (players g)[?cp := (players g ! ?cp)\<lparr>free := False\<rparr>],
            moveset := ms', inputs := ins',
            store := (store g @ hands_of g)[?a := h'] @
                     map (\<lambda>pl. (store g @ hands_of g)[?a := h'] ! hand pl)
                       ((players g)[?cp := (players g ! ?cp)\<lparr>free := False\<rparr>]),
            history := history g @
              [\<lparr>ent_state =
                  \<lparr>snap_curr_player = ?cp,
                   snap_hands = [length (store g)..<length (store g) + length (players g)],
                   snap_free = free (players g ! ?cp)\<rparr>,
                ent_action =
                  \<lparr>act_player = ?cp, act_contains_pattern = out_contains out,
                   act_pattern = out_pattern out, act_choice = out_choice out,
                   act_leading_rank = out_rank out\<rparr>,
                ent_new_state =
                  \<lparr>snap_curr_player = ?cp,
                   snap_hands = [length (store g) + length (players g)..<
                                 length (store g) + length (players g) + length (players g)],
                   snap_free = False\<rparr>,
                ent_reward = calculate_reward ?cp (out_contains out) (np_sum h')\<rparr>],
            pattern := out_pattern out, prev_choice := out_choice out,
            leading_rank := out_rank out,
            skip_count := (if out_contains out then 0
                           else (if int (skip_count g) = int (num_players g) - 1 then 0
                                 else skip_count g) + 1),
            curr_player := (if over then ?cp else (?cp + 1) mod num_players g)\<rparr>"
    using rt rem lt unfolding g2
    by (auto simp: record_turn_def get_state_def get_state_snd Let_def hands_of_def
             split: if_splits)
  show ?thesis using lt G ov eff' by (rule that[where ms'=ms' and ins'=ins' and h'=h' and out=out])
qed

lemma store_after_nth:
  assumes "x < length st"
  shows "((st @ xs)[a := h'] @ ys) ! x = (if x = a then h' else st ! x)"
  using assms by (simp add: nth_append nth_list_update)

lemma players_ok_addr:
  "players_ok g \<Longrightarrow> i < length (players g) \<Longrightarrow> hand (players g ! i) < length (store g)"
  by (simp add: players_ok_def list_all_length)

lemma players_ok_inj:
  "players_ok g \<Longrightarrow> i < length (players g) \<Longrightarrow> j < length (players g) \<Longrightarrow>
   hand (players g ! i) = hand (players g ! j) \<longleftrightarrow> i = j"
  using nth_eq_iff_index_eq[of "map hand (players g)" i j]
  by (simp add: players_ok_def)

lemma step_players:
  assumes "step c g = Inr (g', over)" and "players_ok g"
  shows "players g' = (players g)[curr_player g := (players g ! curr_player g)\<lparr>free := False\<rparr>]"
    and "num_players g' = num_players g"
    and "curr_player g < length (players g)"
  using assms by (cases rule: step_form; simp)+

lemma step_store:
  assumes "step c g = Inr (g', over)" and "players_ok g"
  shows "length (store g') = length (store g) + 2 * length (players g)"
    and "\<And>x. x < length (store g) \<Longrightarrow> x \<noteq> hand (players g ! curr_player g) \<Longrightarrow>
           store g' ! x = store g ! x"
  using assms by (cases rule: step_form; simp add: hands_of_def nth_append)+

lemma step_hand_of:
  assumes "step c g = Inr (g', over)" and "players_ok g" and "q < length (players g)"
    and "q \<noteq> curr_player g"
  shows "hand_of g' q = hand_of g q"
proof -
  have a: "hand (players g ! q) < length (store g)" using assms by (simp add: players_ok_addr)
  have ne: "hand (players g ! q) \<noteq> hand (players g ! curr_player g)"
    using assms step_players(3)[OF assms(1,2)] by (simp add: players_ok_inj)
  have "hand (players g' ! q) = hand (players g ! q)"
    using step_players(1)[OF assms(1,2)] by simp
  then show ?thesis using step_store(2)[OF assms(1,2) a ne] by (simp add: hand_of_def)
qed

lemma step_players_ok:
  assumes "step c g = Inr (g', over)" and "players_ok g"
  shows "players_ok g'"
  using assms(2) step_players(1,2)[OF assms] step_store(1)[OF assms]
  by (auto simp: players_ok_def list_all_length)

lemma map_nth_upt_append:
  "map (\<lambda>a. (xs @ ys) ! a) [length xs..<length xs + length ys] = ys"
  by (rule nth_equalityI) (simp_all add: nth_append)

lemma map_nth_upt_prefix:
  "j \<le> length xs \<Longrightarrow> map (\<lambda>a. (xs @ ys) ! a) [i..<j] = map (\<lambda>a. xs ! a) [i..<j]"
  by (simp add: nth_append)

lemma map_nth_upt_update:
  "a < i \<Longrightarrow> map (\<lambda>x. (xs[a := h]) ! x) [i..<j] = map (\<lambda>x. xs ! x) [i..<j]"
  by simp

lemma hands_of_after:
  assumes "players_ok g" and "cp < length (players g)"
  shows "map (\<lambda>pl. (store g @ xs)[hand (players g ! cp) := h'] ! hand pl)
           ((players g)[cp := (players g ! cp)\<lparr>free := b\<rparr>]) = (hands_of g)[cp := h']"
proof (rule nth_equalityI)
  show "length (map (\<lambda>pl. (store g @ xs)[hand (players g ! cp) := h'] ! hand pl)
           ((players g)[cp := (players g ! cp)\<lparr>free := b\<rparr>])) = length ((hands_of g)[cp := h'])"
    by (simp add: hands_of_def)
next
  fix q
  assume "q < length (map (\<lambda>pl. (store g @ xs)[hand (players g ! cp) := h'] ! hand pl)
           ((players g)[cp := (players g ! cp)\<lparr>free := b\<rparr>]))"
  then have q: "q < length (players g)" by simp
  have a: "hand (players g ! q) < length (store g)" using assms q by (simp add: players_ok_addr)
  have e: "hand (players g ! q) = hand (players g ! cp) \<longleftrightarrow> q = cp"
    "hand (players g ! cp) = hand (players g ! q) \<longleftrightarrow> q = cp"
    using assms q players_ok_inj[of g q cp] players_ok_inj[of g cp q] by auto
  show "map (\<lambda>pl. (store g @ xs)[hand (players g ! cp) := h'] ! hand pl)
           ((players g)[cp := (players g ! cp)\<lparr>free := b\<rparr>]) ! q = (hands_of g)[cp := h'] ! q"
    using q a e assms(2) by (simp add: hands_of_def nth_list_update nth_append)
qed

lemma step_turn [consumes 2, case_names turn]:
  assumes "step c g = Inr (g', over)" and "players_ok g"
  obtains h' and out :: outcome and e where
    "curr_player g < length (players g)"
    and "hands_of g' = (hands_of g)[curr_player g := h']"
    and "history g' = history g @ [e]"
    and "ent_action e = \<lparr>act_player = curr_player g, act_contains_pattern = out_contains out,
                          act_pattern = out_pattern out, act_choice = out_choice out,
                          act_leading_rank = out_rank out\<rparr>"
    and "ent_reward e = calculate_reward (curr_player g) (out_contains out) (np_sum h')"
    and "read_snapshot (store g') (ent_state e) =
           (curr_player g, hands_of g, free (players g ! curr_player g))"
    and "read_snapshot (store g') (ent_new_state e) = (curr_player g, hands_of g', False)"
    and "over = (np_sum h' \<le> 0)"
    and "if out_contains out
         then \<exists>ch. out_choice out = Some ch \<and> isub (hand_of g (curr_player g)) ch = Inr h'
         else h' = hand_of g (curr_player g)"
    and "pattern g' = out_pattern out" and "leading_rank g' = out_rank out"
    and "skip_count g' = (if out_contains out then 0
                           else (if int (skip_count g) = int (num_players g) - 1 then 0
                                 else skip_count g) + 1)"
    and "curr_player g' = (if over then curr_player g
                            else (curr_player g + 1) mod num_players g)"
  using assms
proof (cases rule: step_form)
  case (turn ms' ins' h' out)
  let ?cp = "curr_player g"
  let ?a = "hand (players g ! ?cp)"
  let ?st = "(store g @ hands_of g)[?a := h']"
  let ?ps = "(players g)[?cp := (players g ! ?cp)\<lparr>free := False\<rparr>]"
  let ?e = "last (history g')"
  have a: "?a < length (store g)" using assms(2) turn(1) by (simp add: players_ok_addr)
  have ys: "map (\<lambda>pl. ?st ! hand pl) ?ps = (hands_of g)[?cp := h']"
    using hands_of_after[OF assms(2) turn(1)] by simp
  have st: "store g' = ?st @ (hands_of g)[?cp := h']" "players g' = ?ps"
    using turn(2) ys by simp_all
  have lst: "length ?st = length (store g) + length (players g)"
    by (simp add: hands_of_def)
  have ho: "hands_of g' = (hands_of g)[?cp := h']"
  proof -
    have "hands_of g' = map (\<lambda>pl. (?st @ (hands_of g)[?cp := h']) ! hand pl) ?ps"
      by (simp add: hands_of_def st)
    also have "\<dots> = map (\<lambda>pl. ?st ! hand pl) ?ps"
    proof (rule map_cong[OF refl])
      fix pl assume "pl \<in> set ?ps"
      then obtain q where q: "q < length (players g)" "pl = ?ps ! q"
        by (auto simp: in_set_conv_nth)
      then have "hand pl < length (store g)"
        using assms(2) by (simp add: players_ok_addr)
      then show "(?st @ (hands_of g)[?cp := h']) ! hand pl = ?st ! hand pl"
        by (simp add: nth_append)
    qed
    finally show ?thesis using ys by simp
  qed
  have h: "history g' = history g @ [?e]" using turn(2) by simp
  have e: "?e = \<lparr>ent_state =
                  \<lparr>snap_curr_player = ?cp,
                   snap_hands = [length (store g)..<length (store g) + length (players g)],
                   snap_free = free (players g ! ?cp)\<rparr>,
                ent_action =
                  \<lparr>act_player = ?cp, act_contains_pattern = out_contains out,
                   act_pattern = out_pattern out, act_choice = out_choice out,
                   act_leading_rank = out_rank out\<rparr>,
                ent_new_state =
                  \<lparr>snap_curr_player = ?cp,
                   snap_hands = [length (store g) + length (players g)..<
                                 length (store g) + length (players g) + length (players g)],
                   snap_free = False\<rparr>,
                ent_reward = calculate_reward ?cp (out_contains out) (np_sum h')\<rparr>"
    using turn(2) by simp
  have s1: "map (\<lambda>x. store g' ! x) [length (store g)..<length (store g) + length (players g)]
              = hands_of g"
  proof -
    have "map (\<lambda>x. store g' ! x) [length (store g)..<length (store g) + length (players g)]
          = map (\<lambda>x. ?st ! x) [length (store g)..<length (store g) + length (players g)]"
      unfolding st(1) using lst by (simp add: nth_append)
    also have "\<dots> = map (\<lambda>x. (store g @ hands_of g) ! x)
                        [length (store g)..<length (store g) + length (players g)]"
      using a by simp
    also have "\<dots> = hands_of g"
      using map_nth_upt_append[of "store g" "hands_of g"] by (simp add: hands_of_def)
    finally show ?thesis .
  qed
  have s2: "map (\<lambda>x. store g' ! x) [length (store g) + length (players g)..<
                                 length (store g) + length (players g) + length (players g)]
              = hands_of g'"
  proof -
    have "length ((hands_of g)[?cp := h']) = length (players g)" by (simp add: hands_of_def)
    then show ?thesis
      using map_nth_upt_append[of ?st "(hands_of g)[?cp := h']"] lst
      unfolding st(1) ho by simp
  qed
  show ?thesis
  proof (rule that[where h'=h' and out=out and e="?e"])
    show "curr_player g < length (players g)" by (rule turn(1))
    show "hands_of g' = (hands_of g)[?cp := h']" by (rule ho)
    show "history g' = history g @ [?e]" by (rule h)
    show "ent_action ?e = \<lparr>act_player = curr_player g, act_contains_pattern = out_contains out,
                          act_pattern = out_pattern out, act_choice = out_choice out,
                          act_leading_rank = out_rank out\<rparr>"
      by (simp add: e)
    show "ent_reward ?e = calculate_reward (curr_player g) (out_contains out) (np_sum h')"
      by (simp add: e)
    show "read_snapshot (store g') (ent_state ?e) =
           (curr_player g, hands_of g, free (players g ! curr_player g))"
      using s1 by (simp add: e read_snapshot_def)
    show "read_snapshot (store g') (ent_new_state ?e) = (curr_player g, hands_of g', False)"
      using s2 by (simp add: e read_snapshot_def)
    show "over = (np_sum h' \<le> 0)" by (rule turn(3))
    show "if out_contains out
         then \<exists>ch. out_choice out = Some ch \<and> isub (hand_of g (curr_player g)) ch = Inr h'
         else h' = hand_of g (curr_player g)"
      using turn(4) by (simp add: hand_of_def cong: if_cong)
    show "pattern g' = out_pattern out" "leading_rank g' = out_rank out"
      using turn(2) by simp_all
    show "skip_count g' = (if out_contains out then 0
                           else (if int (skip_count g) = int (num_players g) - 1 then 0
                                 else skip_count g) + 1)"
      using turn(2) by simp
    show "curr_player g' = (if over then curr_player g
                            else (curr_player g + 1) mod num_players g)"
      using turn(2) by simp
  qed
qed

lemma frozen_refl: "frozen g g"
  by (simp add: frozen_def)

lemma frozen_trans: "frozen g g1 \<Longrightarrow> frozen g1 g2 \<Longrightarrow> frozen g g2"
  by (auto simp: frozen_def)

lemma step_history_ok:
  assumes "step c g = Inr (g', over)" and "players_ok g" and "history_ok g"
  shows "history_ok g'"
  using assms(1,2)
proof (cases rule: step_form)
  case (turn ms' ins' h' out)
  have pa: "\<And>x. x \<in> set (map hand (players g)) \<Longrightarrow> x < length (store g)"
    using assms(2) by (auto simp: players_ok_def list_all_iff)
  have len: "length (store g') = length (store g) + 2 * length (players g)"
    by (rule step_store(1)[OF assms(1,2)])
  have ph: "map hand (players g') = map hand (players g)"
    using turn(2) by simp
  have old: "list_all (\<lambda>e. list_all (\<lambda>a. a < length (store g') \<and> a \<notin> set (map hand (players g')))
                      (entry_addrs e)) (history g)"
    using assms(3) len unfolding history_ok_def ph by (fastforce simp: list_all_iff)
  have ea: "entry_addrs (last (history g')) =
              [length (store g)..<length (store g) + length (players g)] @
              [length (store g) + length (players g)..<
               length (store g) + length (players g) + length (players g)]"
    using turn(2) by (simp add: entry_addrs_def)
  have new: "list_all (\<lambda>a. a < length (store g') \<and> a \<notin> set (map hand (players g')))
                      (entry_addrs (last (history g')))"
    unfolding ph ea len using pa by (fastforce simp: list_all_iff)
  have "history g' = history g @ [last (history g')]" using turn(2) by simp
  then have "history_ok g' \<longleftrightarrow>
      list_all (\<lambda>e. list_all (\<lambda>a. a < length (store g') \<and> a \<notin> set (map hand (players g')))
                      (entry_addrs e)) (history g @ [last (history g')])"
    unfolding history_ok_def by simp
  then show ?thesis using old new by simp
qed

lemma step_frozen:
  assumes "step c g = Inr (g', over)" and "players_ok g" and "history_ok g"
  shows "frozen g g'"
proof -
  have h: "\<exists>es. history g' = history g @ es"
    using assms(1,2) by (cases rule: step_turn) simp
  have cp: "curr_player g < length (players g)" by (rule step_players(3)[OF assms(1,2)])
  have same: "store g' ! a = store g ! a"
    if "a < length (store g)" "a \<notin> set (map hand (players g))" for a
  proof -
    have "a \<noteq> hand (players g ! curr_player g)" using that(2) cp by auto
    then show ?thesis using step_store(2)[OF assms(1,2) that(1)] by simp
  qed
  have "read_entry (store g') e = read_entry (store g) e" if "e \<in> set (history g)" for e
  proof -
    have "\<And>a. a \<in> set (entry_addrs e) \<Longrightarrow> store g' ! a = store g ! a"
      using assms(3) that same by (auto simp: history_ok_def list_all_iff)
    then show ?thesis by (simp add: read_entry_def read_snapshot_def entry_addrs_def)
  qed
  then show ?thesis using h by (simp add: frozen_def)
qed

lemma game_states_inv:
  assumes "players_ok g" and "history_ok g" and "g' \<in> set (game_states c n g)"
  shows "players_ok g' \<and> history_ok g' \<and> frozen g g'"
  using assms
proof (induction n arbitrary: g)
  case 0
  then show ?case by simp
next
  case (Suc n)
  from Suc.prems(3) obtain g1 over where s: "step c g = Inr (g1, over)"
    by (cases "step c g") auto
  have ok1: "players_ok g1" "history_ok g1" "frozen g g1"
    using step_players_ok[OF s] step_history_ok[OF s] step_frozen[OF s] Suc.prems by auto
  from Suc.prems(3) s have "g' = g1 \<or> g' \<in> set (game_states c n g1)"
    by (auto split: if_splits)
  then show ?case
  proof
    assume "g' = g1" then show ?thesis using ok1 by simp
  next
    assume "g' \<in> set (game_states c n g1)"
    from Suc.IH[OF ok1(1,2) this] show ?thesis using ok1(3) frozen_trans by blast
  qed
qed

lemma user_loop_free:
  "user_loop c ms True h pat ld ins = user_loop c ms True h pat' ld' ins"
proof (induction ins arbitrary: pat ld pat' ld' rule: length_induct)
  case (1 ins)
  show ?case
  proof (cases ins)
    case Nil
    then show ?thesis by simp
  next
    case (Cons line rest)
    show ?thesis
    proof (cases "line \<in> set ms")
      case False
      then show ?thesis using Cons by simp
    next
      case True
      then show ?thesis using Cons by simp
    qed
  qed
qed

lemma move_free_unconstrained:
  assumes "free (players g ! i)"
  shows "move c g i pat ld = move c g i None None"
proof (cases "policy (players g ! i)")
  case Naive
  have "naive_select c g i pat ld = naive_select c g i None None"
    using assms by (simp add: naive_select_def Let_def)
  then show ?thesis using Naive by (simp add: move_def naive_move_def)
next
  case User
  then show ?thesis
    using assms user_loop_free[of c "moveset g" "store g ! hand (players g ! i)" pat ld "inputs g" None None]
    by (simp add: move_def user_move_def)
qed

lemma Inr_projr: "\<not> isl x \<Longrightarrow> x = Inr (fst (projr x), snd (projr x))"
  by (cases x) simp_all

lemma hand_of_nth: "i < length (players g) \<Longrightarrow> hand_of g i = hands_of g ! i"
  by (simp add: hand_of_def hands_of_def)

lemma move_hands:
  assumes "move c g i pat ld = Inr (g', out)" and "players_ok g" and "i < length (players g)"
  shows "\<exists>h'. hands_of g' = (hands_of g)[i := h'] \<and>
              length (players g') = length (players g) \<and>
              out_remainder out = np_sum h' \<and>
              (if out_contains out
               then \<exists>ch. out_choice out = Some ch \<and> isub (hand_of g i) ch = Inr h'
               else h' = hand_of g i)"
proof -
  from move_form[OF assms(1)] obtain ms' ins' h' where
    g': "g' = g\<lparr>players := (players g)[i := (players g ! i)\<lparr>free := False\<rparr>],
                 moveset := ms', inputs := ins',
                 store := (store g)[hand (players g ! i) := h']\<rparr>"
    and r: "out_remainder out = np_sum h'"
      "if out_contains out
           then \<exists>ch. out_choice out = Some ch \<and> isub (store g ! hand (players g ! i)) ch = Inr h'
           else h' = store g ! hand (players g ! i)"
    by blast
  have "hands_of g' = (hands_of g)[i := h']"
    using hands_of_after[OF assms(2,3), of "[]" h' False] by (simp add: g' hands_of_def)
  moreover have "length (players g') = length (players g)" by (simp add: g')
  moreover have "if out_contains out
               then \<exists>ch. out_choice out = Some ch \<and> isub (hand_of g i) ch = Inr h'
               else h' = hand_of g i"
    using r(2) by (simp add: hand_of_def cong: if_cong)
  ultimately show ?thesis using r(1) by blast
qed

lemma map_store_set_free [simp]:
  "map (\<lambda>pl. st ! hand pl) (ps[i := (ps ! i)\<lparr>free := b\<rparr>]) = map (\<lambda>pl. st ! hand pl) ps"
  by (simp add: list_eq_iff_nth_eq)

lemma game_states_pairs:
  assumes "players_ok g" and "history_ok g" and "i \<le> j" and "j < length (game_states c n g)"
  shows "frozen (game_states c n g ! i) (game_states c n g ! j)"
  using assms
proof (induction n arbitrary: g i j)
  case 0
  then show ?case by simp
next
  case (Suc n)
  from Suc.prems(4) obtain g1 over where s: "step c g = Inr (g1, over)"
    by (cases "step c g") auto
  have ok1: "players_ok g1" "history_ok g1"
    using step_players_ok[OF s] step_history_ok[OF s] Suc.prems by auto
  let ?rest = "if over then [] else game_states c n g1"
  have S: "game_states c (Suc n) g = g1 # ?rest" using s by simp
  show ?case
  proof (cases j)
    case 0
    then show ?thesis using Suc.prems(3) by (simp add: frozen_refl)
  next
    case (Suc j')
    then have j': "j' < length ?rest" using Suc.prems(4) S by simp
    then have r: "?rest = game_states c n g1" by (simp split: if_splits)
    show ?thesis
    proof (cases i)
      case 0
      have "?rest ! j' \<in> set (game_states c n g1)" using j' r by simp
      then have "frozen g1 (?rest ! j')" using game_states_inv[OF ok1] by blast
      then show ?thesis using 0 Suc S by simp
    next
      case (Suc i')
      then have "i' \<le> j'" using Suc.prems(3) \<open>j = Suc j'\<close> by simp
      from Suc.IH[OF ok1 this] j' r have "frozen (?rest ! i') (?rest ! j')" by simp
      then show ?thesis using Suc \<open>j = Suc j'\<close> S by simp
    qed
  qed
qed

section \<open>Legal choices and the invariants of the game\<close>

lemma length_mark [simp]: "length (mark n sh r) = n"
  by (simp add: mark_def)

lemma mark_nth: "k < n \<Longrightarrow> mark n sh r ! k = (if r \<le> k \<and> k < r + extent sh then int (copies_per_rank sh) else 0)"
  by (simp add: mark_def)

lemma available_mark_le:
  assumes "available h sh r" and "list_all (\<lambda>x. 0 \<le> x) h"
  shows "list_all2 (\<le>) (mark (length h) sh r) h"
proof -
  have "mark (length h) sh r ! k \<le> h ! k" if "k < length h" for k
  proof (cases "r \<le> k \<and> k < r + extent sh")
    case True
    then have "int (copies_per_rank sh) \<le> h ! k"
      using assms(1) by (simp add: available_def list_all_iff)
    then show ?thesis using True that by (simp add: mark_nth)
  next
    case False
    have "0 \<le> h ! k" using assms(2) that by (simp add: list_all_length)
    then show ?thesis using False that by (auto simp: mark_nth)
  qed
  then show ?thesis by (simp add: list_all2_conv_all_nth)
qed

lemma selection_length [simp]:
  "length (sel_choice (find_smallest_valid_choice cat h p l)) = length h"
  by (simp add: find_smallest_valid_choice_def split: list.splits)

lemma found_choice_legal:
  assumes "sel_found (find_smallest_valid_choice cat h p l)" and "list_all (\<lambda>x. 0 \<le> x) h"
  shows "list_all2 (\<le>) (sel_choice (find_smallest_valid_choice cat h p l)) h"
proof -
  from found_selection[OF assms(1)] obtain r rs where
    c: "candidates h (cat p) l = r # rs" and
    e: "find_smallest_valid_choice cat h p l =
             \<lparr>sel_found = True, sel_pattern = p, sel_choice = mark (length h) (cat p) r,
              sel_rank = Some (representative (cat p) r)\<rparr>"
    by auto
  have "r \<in> set (candidates h (cat p) l)" using c by simp
  then have "available h (cat p) r" by (simp add: candidates_iff)
  then show ?thesis using available_mark_le assms(2) e by simp
qed

lemma found_choice_nonneg:
  "list_all (\<lambda>x. 0 \<le> x) (sel_choice (find_smallest_valid_choice cat h p l))"
  by (auto simp: find_smallest_valid_choice_def mark_def list_all_iff split: list.splits)

lemma sum_list_mark:
  assumes "r + extent sh \<le> n"
  shows "sum_list (mark n sh r) = int (extent sh) * int (copies_per_rank sh)"
proof -
  have "mark n sh r = replicate r 0 @ replicate (extent sh) (int (copies_per_rank sh)) @
                      replicate (n - (r + extent sh)) 0"
    using assms by (intro nth_equalityI) (auto simp: mark_nth nth_append)
  then show ?thesis by (simp add: sum_list_replicate)
qed

lemma found_choice_sum:
  assumes "sel_found (find_smallest_valid_choice cat h p l)"
  shows "sum_list (sel_choice (find_smallest_valid_choice cat h p l)) =
           int (extent (cat p)) * int (copies_per_rank (cat p))"
proof -
  from found_selection[OF assms(1)] obtain r rs where
    c: "candidates h (cat p) l = r # rs" and
    e: "find_smallest_valid_choice cat h p l =
             \<lparr>sel_found = True, sel_pattern = p, sel_choice = mark (length h) (cat p) r,
              sel_rank = Some (representative (cat p) r)\<rparr>"
    by auto
  have "r \<in> set (candidates h (cat p) l)" using c by simp
  then have "r + extent (cat p) \<le> length h" by (simp add: candidates_iff available_def)
  then show ?thesis using sum_list_mark e by simp
qed

lemma single_found:
  assumes "list_all (\<lambda>x. 0 \<le> x) h" and "0 < sum_list h"
    and "extent (cat p) = 1" and "copies_per_rank (cat p) = 1"
  shows "sel_found (find_smallest_valid_choice cat h p None)"
proof -
  have "\<exists>k<length h. 0 < h ! k"
  proof (rule ccontr)
    assume "\<not> (\<exists>k<length h. 0 < h ! k)"
    then have "\<And>k. k < length h \<Longrightarrow> h ! k \<le> 0" by (meson not_less)
    then have "\<forall>x \<in> set h. x \<le> 0" by (auto simp: in_set_conv_nth)
    then have "sum_list h \<le> 0" by (simp add: sum_list_nonpos)
    then show False using assms(2) by simp
  qed
  then obtain k where k: "k < length h" "0 < h ! k" by blast
  then have "available h (cat p) k" using assms(3,4) by (simp add: available_def)
  then have "k \<in> set (candidates h (cat p) None)"
    using k by (simp add: candidates_iff outranks_def)
  then show ?thesis by (auto simp: found_iff)
qed

lemma try_patterns_Some:
  "try_patterns cat h ms = Some sel \<Longrightarrow>
     \<exists>p \<in> set ms. sel = find_smallest_valid_choice cat h p None"
  by (induction cat h ms rule: try_patterns.induct) (auto split: if_splits)

lemma try_patterns_nonempty: "ms \<noteq> [] \<Longrightarrow> try_patterns cat h ms \<noteq> None"
  by (induction cat h ms rule: try_patterns.induct) auto

lemma try_patterns_found:
  assumes "p \<in> set ms" and "sel_found (find_smallest_valid_choice cat h p None)"
    and "try_patterns cat h ms = Some sel"
  shows "sel_found sel"
  using assms by (induction cat h ms rule: try_patterns.induct) (auto split: if_splits)

lemma naive_move_outcome:
  assumes "naive_move c g i pat ld = Inr (g', out)"
  shows "\<exists>sel. naive_select c g i pat ld = Inr sel \<and> out_contains out = sel_found sel \<and>
               out_choice out = Some (sel_choice sel) \<and>
               out_pattern out = Some (sel_pattern sel) \<and> out_rank out = sel_rank sel"
    and "moveset g' = (if free (players g ! i) then shuffle c (length (history g)) (moveset g)
                       else moveset g)"
proof -
  obtain sel where sel: "naive_select c g i pat ld = Inr sel"
    using assms by (cases "naive_select c g i pat ld") (auto simp: naive_move_def Let_def)
  show "\<exists>sel. naive_select c g i pat ld = Inr sel \<and> out_contains out = sel_found sel \<and>
               out_choice out = Some (sel_choice sel) \<and>
               out_pattern out = Some (sel_pattern sel) \<and> out_rank out = sel_rank sel"
    using assms sel
    by (cases "sel_found sel")
       (auto simp: naive_move_def Let_def split: sum.splits)
  show "moveset g' = (if free (players g ! i) then shuffle c (length (history g)) (moveset g)
                       else moveset g)"
    using assms sel
    by (cases "sel_found sel")
       (auto simp: naive_move_def Let_def split: sum.splits)
qed

lemma naive_select_cases:
  assumes "naive_select c g i pat ld = Inr sel"
  shows "if free (players g ! i)
         then try_patterns (catalog c) (hand_of g i)
                (shuffle c (length (history g)) (moveset g)) = Some sel
         else \<exists>p. pat = Some p \<and> sel = find_smallest_valid_choice (catalog c) (hand_of g i) p ld"
  using assms
  by (auto simp: naive_select_def Let_def hand_of_def split: option.splits if_splits)

lemma naive_select_engine:
  assumes "naive_select c g i pat ld = Inr sel"
  shows "\<exists>p l. sel = find_smallest_valid_choice (catalog c) (hand_of g i) p l"
proof (cases "free (players g ! i)")
  case True
  then have "try_patterns (catalog c) (hand_of g i)
                (shuffle c (length (history g)) (moveset g)) = Some sel"
    using naive_select_cases[OF assms] by simp
  from try_patterns_Some[OF this] show ?thesis by blast
next
  case False
  then show ?thesis using naive_select_cases[OF assms] by auto
qed

lemma read_attempt_Some:
  "read_attempt c h pat ld cards = (Some (contains, pat', ch, rk), p'') \<Longrightarrow>
     read_user_cards c cards pat ld h = (contains, pat', ch, rk, True)"
  by (auto simp: read_attempt_def split: if_splits prod.splits)

lemma user_loop_reader:
  "user_loop c ms fr h pat ld ins = Inr ((contains, pat', ch, rk), ld', rest) \<Longrightarrow>
     \<exists>cards p l. read_user_cards c cards p l h = (contains, pat', ch, rk, True)"
proof (induction c ms fr h pat ld ins rule: user_loop.induct)
  case (1 c ms fr h pat leading)
  then show ?case by simp
next
  case (2 c ms fr h pat leading line rest0)
  show ?case
  proof (cases fr)
    case True
    show ?thesis
    proof (cases "line \<in> set ms")
      case False
      then show ?thesis using 2 True by simp
    next
      case lin: True
      show ?thesis
      proof (cases rest0)
        case Nil
        then show ?thesis using 2 True lin by simp
      next
        case (Cons user_cards rest')
        obtain ra p'' where ra: "read_attempt c h (Some line) None user_cards = (ra, p'')"
          by (cases "read_attempt c h (Some line) None user_cards")
        show ?thesis
        proof (cases ra)
          case None
          then show ?thesis using 2 True lin Cons ra by simp
        next
          case (Some r)
          then have "r = (contains, pat', ch, rk)" using 2(4) True lin Cons ra by simp
          then show ?thesis using read_attempt_Some ra Some by blast
        qed
      qed
    qed
  next
    case False
    obtain ra p'' where ra: "read_attempt c h pat leading line = (ra, p'')"
      by (cases "read_attempt c h pat leading line")
    show ?thesis
    proof (cases ra)
      case None
      then show ?thesis using 2 False ra by simp
    next
      case (Some r)
      then have "r = (contains, pat', ch, rk)" using 2(4) False ra by simp
      then show ?thesis using read_attempt_Some ra Some by blast
    qed
  qed
qed

lemma user_move_outcome:
  assumes "user_move c g i pat ld = Inr (g', out)"
  shows "\<exists>cards p l pat' ch rk.
           read_user_cards c cards p l (hand_of g i) = (out_contains out, pat', ch, rk, True) \<and>
           out_choice out = Some ch"
    and "moveset g' = moveset g"
proof -
  let ?pl = "players g ! i"
  let ?h = "store g ! hand ?pl"
  obtain contains pat' choice user_rank leading' rest where
    l: "user_loop c (moveset g) (free ?pl) ?h pat ld (inputs g) =
          Inr ((contains, pat', choice, user_rank), leading', rest)"
    using assms
    by (cases "user_loop c (moveset g) (free ?pl) ?h pat ld (inputs g)")
       (auto simp: user_move_def Let_def)
  have o: "out_contains out = contains" "out_choice out = Some choice" and m: "moveset g' = moveset g"
    using assms l by (cases contains; auto simp: user_move_def Let_def split: sum.splits)+
  from user_loop_reader[OF l] obtain cards p l0 where
    "read_user_cards c cards p l0 ?h = (contains, pat', choice, user_rank, True)" by blast
  then show "\<exists>cards p l pat' ch rk.
           read_user_cards c cards p l (hand_of g i) = (out_contains out, pat', ch, rk, True) \<and>
           out_choice out = Some ch"
    unfolding hand_of_def o by blast
  show "moveset g' = moveset g" by (rule m)
qed

lemma reader_legalD:
  assumes "reader_legal c" and "read_user_cards c cards p l h = (True, pat', ch, rk, True)"
  shows "length ch = length h \<and> list_all (\<lambda>x. 0 \<le> x) ch \<and> list_all2 (\<le>) ch h"
  using assms(1)[unfolded reader_legal_def, rule_format, where user_cards=cards and pat=p and leading=l and h=h] assms(2) by simp

lemma move_choice_legal:
  assumes "move c g i pat ld = Inr (g', out)" and "out_contains out"
    and "list_all (\<lambda>x. 0 \<le> x) (hand_of g i)" and "reader_legal c"
  shows "\<exists>ch. out_choice out = Some ch \<and> length ch = length (hand_of g i) \<and>
              list_all (\<lambda>x. 0 \<le> x) ch \<and> list_all2 (\<le>) ch (hand_of g i)"
proof (cases "policy (players g ! i)")
  case Naive
  then have m: "naive_move c g i pat ld = Inr (g', out)" using assms(1) by (simp add: move_def)
  from naive_move_outcome(1)[OF m] obtain sel where
    sel: "naive_select c g i pat ld = Inr sel" "out_contains out = sel_found sel"
      "out_choice out = Some (sel_choice sel)" by blast
  from naive_select_engine[OF sel(1)] obtain p l where
    e: "sel = find_smallest_valid_choice (catalog c) (hand_of g i) p l" by blast
  have "sel_found (find_smallest_valid_choice (catalog c) (hand_of g i) p l)"
    using assms(2) sel(2) e by simp
  from found_choice_legal[OF this assms(3)] show ?thesis
    using sel(3) e found_choice_nonneg[of "catalog c" "hand_of g i" p l] by simp
next
  case User
  then have m: "user_move c g i pat ld = Inr (g', out)" using assms(1) by (simp add: move_def)
  from user_move_outcome(1)[OF m] obtain cards p l pat' ch rk where
    r: "read_user_cards c cards p l (hand_of g i) = (out_contains out, pat', ch, rk, True)"
      "out_choice out = Some ch" by blast
  have "length ch = length (hand_of g i) \<and> list_all (\<lambda>x. 0 \<le> x) ch \<and>
        list_all2 (\<le>) ch (hand_of g i)"
    using reader_legalD[OF assms(4)] assms(2) r(1) by simp
  then show ?thesis using r(2) by simp
qed

lemma wrap64_id: "int64 x \<Longrightarrow> wrap64 x = x"
  by (simp add: int64_def wrap64_def)

lemma elem_le_sum_list:
  "list_all (\<lambda>x. 0 \<le> x) (h :: int list) \<Longrightarrow> k < length h \<Longrightarrow> h ! k \<le> sum_list h"
proof (induction h arbitrary: k)
  case Nil
  then show ?case by simp
next
  case (Cons x xs)
  have s: "0 \<le> sum_list xs" using Cons.prems(1) by (simp add: list_all_iff sum_list_nonneg)
  show ?case
  proof (cases k)
    case 0
    then show ?thesis using s by simp
  next
    case (Suc j)
    then have "xs ! j \<le> sum_list xs" using Cons by simp
    then show ?thesis using Suc Cons.prems(1) by simp
  qed
qed

lemma sum_list_nonneg_int: "list_all (\<lambda>x. 0 \<le> x) (h :: int list) \<Longrightarrow> 0 \<le> sum_list h"
  by (simp add: list_all_iff sum_list_nonneg)

lemma np_sum_id:
  assumes "list_all (\<lambda>x. 0 \<le> x) h" and "sum_list h < 9223372036854775808"
  shows "np_sum h = sum_list h"
  unfolding np_sum_def using sum_list_nonneg_int[OF assms(1)] assms(2)
  by (intro wrap64_id) (simp add: int64_def)

lemma isub_legal:
  assumes "length ch = length h" and "list_all (\<lambda>x. 0 \<le> x) ch" and "list_all2 (\<le>) ch h"
    and "sum_list h < 9223372036854775808"
  shows "isub h ch = Inr (map2 (-) h ch)"
proof (cases "h = []")
  case True
  then show ?thesis using assms(1) by (simp add: isub_def)
next
  case False
  have nn: "list_all (\<lambda>x. 0 \<le> x) h"
    using assms(2,3) by (fastforce simp: list_all2_conv_all_nth list_all_length)
  have b: "0 \<le> ch ! k \<and> ch ! k \<le> h ! k \<and> h ! k < 9223372036854775808" if "k < length h" for k
  proof -
    have "h ! k \<le> sum_list h" by (rule elem_le_sum_list[OF nn that])
    then show ?thesis using assms that by (simp add: list_all2_conv_all_nth list_all_length)
  qed
  have i: "\<not> list_ex (\<lambda>x. \<not> int64 x) ch"
  proof -
    have "int64 (ch ! k)" if "k < length ch" for k
      using b[of k] that assms(1) by (simp add: int64_def)
    then show ?thesis by (auto simp: list_ex_iff in_set_conv_nth)
  qed
  have ne: "ch \<noteq> []" using False assms(1) by auto
  have "map2 (\<lambda>x y. wrap64 (x - y)) h ch = map2 (-) h ch"
  proof (rule nth_equalityI)
    show "length (map2 (\<lambda>x y. wrap64 (x - y)) h ch) = length (map2 (-) h ch)" by simp
  next
    fix k assume "k < length (map2 (\<lambda>x y. wrap64 (x - y)) h ch)"
    then have k: "k < length h" using assms(1) by simp
    have "int64 (h ! k - ch ! k)" using b[OF k] by (simp add: int64_def)
    then show "map2 (\<lambda>x y. wrap64 (x - y)) h ch ! k = map2 (-) h ch ! k"
      using k assms(1) by (simp add: wrap64_id)
  qed
  then show ?thesis using False ne i assms(1) by (simp add: isub_def)
qed

lemma map2_minus_nonneg:
  "list_all2 (\<le>) ch h \<Longrightarrow> list_all (\<lambda>x. 0 \<le> x) (map2 (-) h (ch :: int list))"
  by (auto simp: list_all2_conv_all_nth list_all_length)

lemma map2_minus_sum:
  "length ch = length h \<Longrightarrow> sum_list (map2 (-) h (ch :: int list)) = sum_list h - sum_list ch"
proof (induction h arbitrary: ch)
  case Nil
  then show ?case by simp
next
  case (Cons x xs)
  then obtain y ys where "ch = y # ys" by (cases ch) auto
  then show ?case using Cons by simp
qed

lemma map2_minus_nth:
  "length ch = length h \<Longrightarrow> k < length h \<Longrightarrow> map2 (-) h (ch :: int list) ! k = h ! k - ch ! k"
  by simp

lemma record_turn_action:
  assumes "record_turn g2 cp cs out = Inr (g', over)"
  shows "ent_action (last (history g')) =
           \<lparr>act_player = cp, act_contains_pattern = out_contains out,
            act_pattern = out_pattern out, act_choice = out_choice out,
            act_leading_rank = out_rank out\<rparr>"
    and "moveset g' = moveset g2"
  using assms
  by (auto simp: record_turn_def get_state_def Let_def split: if_splits)

lemma hand_of_pre_move:
  assumes "players_ok g" and "i < length (players g)"
  shows "hand_of (mark_free (g\<lparr>store := store g @ xs\<rparr>)) i = hand_of g i"
  using players_ok_addr[OF assms] by (simp add: hand_of_def nth_append)

lemma step_move:
  assumes "step c g = Inr (g', over)" and "players_ok g"
  shows "\<exists>g2 out.
           move c (mark_free (g\<lparr>store := store g @ hands_of g\<rparr>)) (curr_player g)
             (pattern g) (leading_rank g) = Inr (g2, out) \<and>
           moveset g' = moveset g2 \<and>
           ent_action (last (history g')) =
             \<lparr>act_player = curr_player g, act_contains_pattern = out_contains out,
              act_pattern = out_pattern out, act_choice = out_choice out,
              act_leading_rank = out_rank out\<rparr>"
proof -
  from step_Inr_elim[OF assms(1)] obtain g2 out where
    m: "move c (mark_free (fst (get_state g (curr_player g)))) (curr_player g)
           (pattern g) (leading_rank g) = Inr (g2, out)" and
    rt: "record_turn g2 (curr_player g) (snd (get_state g (curr_player g))) out = Inr (g', over)"
    by blast
  show ?thesis using m record_turn_action[OF rt] by (auto simp: get_state_fst)
qed

lemma step_last_entry:
  assumes "step c g = Inr (g', over)" and "players_ok g"
  shows "history g' = history g @ [last (history g')]"
  using assms by (cases rule: step_turn) simp

lemma step_choice_legal:
  assumes "step c g = Inr (g', over)" and "players_ok g" and "hands_nonneg g"
    and "hands_int64 g" and "reader_legal c"
    and "act_contains_pattern (ent_action (last (history g')))"
  shows "\<exists>ch. act_choice (ent_action (last (history g'))) = Some ch \<and>
              length ch = length (hand_of g (curr_player g)) \<and>
              list_all (\<lambda>x. 0 \<le> x) ch \<and>
              list_all2 (\<le>) ch (hand_of g (curr_player g)) \<and>
              hand_of g' (curr_player g) = map2 (-) (hand_of g (curr_player g)) ch"
proof -
  let ?cp = "curr_player g"
  let ?g1 = "mark_free (g\<lparr>store := store g @ hands_of g\<rparr>)"
  have cp: "?cp < length (players g)" by (rule step_players(3)[OF assms(1,2)])
  from step_move[OF assms(1,2)] obtain g2 out where
    m: "move c ?g1 ?cp (pattern g) (leading_rank g) = Inr (g2, out)" and
    a: "ent_action (last (history g')) =
             \<lparr>act_player = ?cp, act_contains_pattern = out_contains out,
              act_pattern = out_pattern out, act_choice = out_choice out,
              act_leading_rank = out_rank out\<rparr>"
    by blast
  have h1: "hand_of ?g1 ?cp = hand_of g ?cp" by (rule hand_of_pre_move[OF assms(2) cp])
  have nn: "list_all (\<lambda>x. 0 \<le> x) (hand_of g ?cp)"
    using assms(3) cp by (simp add: hands_nonneg_def hand_of_nth list_all_length hands_of_def)
  have sm: "sum_list (hand_of g ?cp) < 9223372036854775808"
    using assms(4) cp by (simp add: hands_int64_def hand_of_nth list_all_length hands_of_def)
  have oc: "out_contains out" using assms(6) a by simp
  from move_choice_legal[OF m oc _ assms(5)] nn h1 obtain ch where
    ch: "out_choice out = Some ch" "length ch = length (hand_of g ?cp)"
      "list_all (\<lambda>x. 0 \<le> x) ch" "list_all2 (\<le>) ch (hand_of g ?cp)"
    by auto
  have "hand_of g' ?cp = map2 (-) (hand_of g ?cp) ch"
    using assms(1,2)
  proof (cases rule: step_turn)
    case (turn h' out' e)
    have e: "e = last (history g')" using turn(3) by simp
    have "out_contains out'" "out_choice out' = Some ch"
      using turn(4) a oc ch(1) unfolding e by simp_all
    then have "isub (hand_of g ?cp) ch = Inr h'" using turn(9) by simp
    then have h': "h' = map2 (-) (hand_of g ?cp) ch"
      using isub_legal[OF ch(2,3,4) sm] by simp
    have "length (players g') = length (players g)"
      using step_players(1)[OF assms(1,2)] by simp
    then have "hand_of g' ?cp = h'"
      using turn(1,2) by (simp add: hand_of_nth hands_of_def)
    then show ?thesis using h' by simp
  qed
  then show ?thesis using ch a by simp
qed

lemma step_skip_hand:
  assumes "step c g = Inr (g', over)" and "players_ok g"
    and "\<not> act_contains_pattern (ent_action (last (history g')))"
  shows "hands_of g' = hands_of g"
  using assms(1,2)
proof (cases rule: step_turn)
  case (turn h' out e)
  have e: "e = last (history g')" using turn(3) by simp
  have "\<not> out_contains out" using turn(4) assms(3) unfolding e by simp
  then have "h' = hand_of g (curr_player g)" using turn(9) by simp
  then show ?thesis using turn(1,2) by (simp add: hand_of_nth)
qed

lemma step_play_hands:
  assumes "step c g = Inr (g', over)" and "players_ok g"
  shows "hands_of g' = (hands_of g)[curr_player g := hand_of g' (curr_player g)]"
    and "over \<longleftrightarrow> np_sum (hand_of g' (curr_player g)) \<le> 0"
    and "ent_reward (last (history g')) =
           calculate_reward (curr_player g) (act_contains_pattern (ent_action (last (history g'))))
             (np_sum (hand_of g' (curr_player g)))"
    and "curr_player g' = (if over then curr_player g
                            else (curr_player g + 1) mod num_players g)"
    and "act_player (ent_action (last (history g'))) = curr_player g"
    and "skip_count g' = (if act_contains_pattern (ent_action (last (history g'))) then 0
                           else (if int (skip_count g) = int (num_players g) - 1 then 0
                                 else skip_count g) + 1)"
    and "pattern g' = act_pattern (ent_action (last (history g')))"
proof -
  have l: "length (players g') = length (players g)"
    using step_players(1)[OF assms] by simp
  from assms have
    "hands_of g' = (hands_of g)[curr_player g := hand_of g' (curr_player g)] \<and>
     (over \<longleftrightarrow> np_sum (hand_of g' (curr_player g)) \<le> 0) \<and>
     ent_reward (last (history g')) =
           calculate_reward (curr_player g) (act_contains_pattern (ent_action (last (history g'))))
             (np_sum (hand_of g' (curr_player g))) \<and>
     curr_player g' = (if over then curr_player g
                            else (curr_player g + 1) mod num_players g) \<and>
     act_player (ent_action (last (history g'))) = curr_player g \<and>
     skip_count g' = (if act_contains_pattern (ent_action (last (history g'))) then 0
                           else (if int (skip_count g) = int (num_players g) - 1 then 0
                                 else skip_count g) + 1) \<and>
     pattern g' = act_pattern (ent_action (last (history g')))"
  proof (cases rule: step_turn)
    case (turn h' out e)
    have e: "e = last (history g')" using turn(3) by simp
    have own: "hand_of g' (curr_player g) = h'"
      using turn(1,2) l by (simp add: hand_of_nth hands_of_def)
    show ?thesis using turn(2,4,5,8,10,12,13) unfolding e[symmetric] own by simp
  qed
  then show "hands_of g' = (hands_of g)[curr_player g := hand_of g' (curr_player g)]"
    and "over \<longleftrightarrow> np_sum (hand_of g' (curr_player g)) \<le> 0"
    and "ent_reward (last (history g')) =
           calculate_reward (curr_player g) (act_contains_pattern (ent_action (last (history g'))))
             (np_sum (hand_of g' (curr_player g)))"
    and "curr_player g' = (if over then curr_player g
                            else (curr_player g + 1) mod num_players g)"
    and "act_player (ent_action (last (history g'))) = curr_player g"
    and "skip_count g' = (if act_contains_pattern (ent_action (last (history g'))) then 0
                           else (if int (skip_count g) = int (num_players g) - 1 then 0
                                 else skip_count g) + 1)"
    and "pattern g' = act_pattern (ent_action (last (history g')))"
    by blast+
qed

lemma hands_nonneg_nth:
  "hands_nonneg g \<Longrightarrow> i < length (players g) \<Longrightarrow> list_all (\<lambda>x. 0 \<le> x) (hand_of g i)"
  by (simp add: hands_nonneg_def hand_of_nth list_all_length hands_of_def)

lemma hands_int64_nth:
  "hands_int64 g \<Longrightarrow> i < length (players g) \<Longrightarrow> sum_list (hand_of g i) < 9223372036854775808"
  by (simp add: hands_int64_def hand_of_nth list_all_length hands_of_def)

lemma step_hands_inv:
  assumes "step c g = Inr (g', over)" and "players_ok g" and "hands_nonneg g"
    and "hands_int64 g" and "reader_legal c"
  shows "hands_nonneg g'" and "hands_int64 g'"
proof -
  have "hands_nonneg g' \<and> hands_int64 g'"
  proof (cases "act_contains_pattern (ent_action (last (history g')))")
    case False
    then show ?thesis using step_skip_hand[OF assms(1,2)] assms(3,4)
      by (simp add: hands_nonneg_def hands_int64_def)
  next
    case True
    let ?cp = "curr_player g"
    have cp: "?cp < length (players g)" by (rule step_players(3)[OF assms(1,2)])
    from step_choice_legal[OF assms True] obtain ch where
      ch: "length ch = length (hand_of g ?cp)" "list_all (\<lambda>x. 0 \<le> x) ch"
        "list_all2 (\<le>) ch (hand_of g ?cp)"
        "hand_of g' ?cp = map2 (-) (hand_of g ?cp) ch"
      by blast
    have nn: "list_all (\<lambda>x. 0 \<le> x) (hand_of g' ?cp)"
      using map2_minus_nonneg[OF ch(3)] ch(4) by simp
    have "sum_list (hand_of g' ?cp) = sum_list (hand_of g ?cp) - sum_list ch"
      using map2_minus_sum[OF ch(1)] ch(4) by simp
    then have sm: "sum_list (hand_of g' ?cp) < 9223372036854775808"
      using sum_list_nonneg_int[OF ch(2)] hands_int64_nth[OF assms(4) cp] by simp
    have "hands_of g' = (hands_of g)[?cp := hand_of g' ?cp]"
      by (rule step_play_hands(1)[OF assms(1,2)])
    then show ?thesis using assms(3,4) nn sm
      by (auto simp: hands_nonneg_def hands_int64_def list_all_iff
               dest!: subsetD[OF set_update_subset_insert])
  qed
  then show "hands_nonneg g'" and "hands_int64 g'" by simp_all
qed

lemma play_game_loop_final:
  assumes "play_game_loop c n g = Some (Inr gf)" and "I g"
    and "\<And>g g' over. I g \<Longrightarrow> step c g = Inr (g', over) \<Longrightarrow> I g'"
  shows "\<exists>g0. I g0 \<and> step c g0 = Inr (gf, True)"
  using assms(1,2)
proof (induction n arbitrary: g)
  case 0
  then show ?case by simp
next
  case (Suc n)
  from Suc.prems(1) obtain g1 over where s: "step c g = Inr (g1, over)"
    by (cases "step c g") auto
  show ?case
  proof (cases over)
    case True
    then have "gf = g1" using Suc.prems(1) s by simp
    then show ?thesis using s True Suc.prems(2) by (intro exI[of _ g]) simp
  next
    case False
    then have "play_game_loop c n g1 = Some (Inr gf)" using Suc.prems(1) s by simp
    moreover have "I g1" using assms(3)[OF Suc.prems(2) s] .
    ultimately show ?thesis by (rule Suc.IH)
  qed
qed

lemma step_over_iff:
  assumes "step c g = Inr (g', over)" and "players_ok g" and "hands_nonneg g"
    and "hands_int64 g" and "reader_legal c"
  shows "over \<longleftrightarrow> sum_list (hand_of g' (curr_player g)) = 0"
    and "np_sum (hand_of g' (curr_player g)) = sum_list (hand_of g' (curr_player g))"
proof -
  have cp: "curr_player g < length (players g')"
    using step_players(1,3)[OF assms(1,2)] by simp
  have nn: "list_all (\<lambda>x. 0 \<le> x) (hand_of g' (curr_player g))"
    by (rule hands_nonneg_nth[OF step_hands_inv(1)[OF assms] cp])
  have sm: "sum_list (hand_of g' (curr_player g)) < 9223372036854775808"
    by (rule hands_int64_nth[OF step_hands_inv(2)[OF assms] cp])
  show e: "np_sum (hand_of g' (curr_player g)) = sum_list (hand_of g' (curr_player g))"
    by (rule np_sum_id[OF nn sm])
  show "over \<longleftrightarrow> sum_list (hand_of g' (curr_player g)) = 0"
    using step_play_hands(2)[OF assms(1,2)] sum_list_nonneg_int[OF nn] unfolding e by auto
qed

lemma reader_legal_ctx0: "reader_legal ctx0"
proof -
  have "list_all2 (\<le>) ((replicate (length h) 0)[0 := 1]) h \<and>
        list_all (\<lambda>x. 0 \<le> x) ((replicate (length h) 0)[0 := 1 :: int])"
    if "0 < length h" "1 \<le> h ! 0" "list_all (\<lambda>x. 0 \<le> x) h" for h :: "int list"
    using that by (auto simp: list_all2_conv_all_nth nth_list_update list_all_length)
  then show ?thesis
    by (simp add: reader_legal_def ctx0_def reader0_def)
qed

section \<open>Conservation of the cards\<close>

lemma sum_list_map_update:
  fixes f :: "'a \<Rightarrow> int"
  assumes "i < length xs"
  shows "sum_list (map f (xs[i := x])) = sum_list (map f xs) - f (xs ! i) + f x"
proof -
  have "xs = take i xs @ xs ! i # drop (Suc i) xs" using assms by (simp add: id_take_nth_drop)
  moreover have "xs[i := x] = take i xs @ x # drop (Suc i) xs" using assms by (simp add: upd_conv_take_nth_drop)
  ultimately have "sum_list (map f (xs[i := x])) = sum_list (map f (take i xs)) + f x + sum_list (map f (drop (Suc i) xs))"
    and "sum_list (map f xs) = sum_list (map f (take i xs)) + f (xs ! i) + sum_list (map f (drop (Suc i) xs))"
    by (metis map_append list.simps(9) sum_list.append sum_list.Cons add.assoc)+
  then show ?thesis by simp
qed

lemma sum_list_update_int:
  fixes xs :: "int list"
  assumes "i < length xs"
  shows "sum_list (xs[i := x]) = sum_list xs - xs ! i + x"
  using sum_list_map_update[OF assms, of "\<lambda>x. x" x] by simp

lemma played_snoc:
  "played (hist @ [e]) k = played hist k +
     (if act_contains_pattern (ent_action e)
      then (case act_choice (ent_action e) of Some ch \<Rightarrow> ch ! k | None \<Rightarrow> 0) else 0)"
  by (simp add: played_def)

lemma step_conserved:
  assumes "step c g = Inr (g', over)" and "players_ok g" and "hands_nonneg g"
    and "hands_int64 g" and "reader_legal c" and "ranked n g"
  shows "ranked n g'"
    and "k < n \<Longrightarrow> held g' k + played (history g') k = held g k + played (history g) k"
proof -
  let ?cp = "curr_player g"
  let ?e = "last (history g')"
  have cp: "?cp < length (players g)" by (rule step_players(3)[OF assms(1,2)])
  have hist: "history g' = history g @ [?e]" by (rule step_last_entry[OF assms(1,2)])
  have ln: "length (hand_of g ?cp) = n"
    using assms(6) cp by (simp add: ranked_def hand_of_nth list_all_length hands_of_def)
  have "ranked n g' \<and> (k < n \<longrightarrow> held g' k + played (history g') k = held g k + played (history g) k)"
  proof (cases "act_contains_pattern (ent_action ?e)")
    case False
    have "hands_of g' = hands_of g" by (rule step_skip_hand[OF assms(1,2) False])
    moreover have "played (history g') k = played (history g) k"
      using played_snoc[of "history g" ?e k] hist False by simp
    ultimately show ?thesis using assms(6) by (simp add: ranked_def held_def)
  next
    case True
    from step_choice_legal[OF assms(1-5) True] obtain ch where
      ch: "act_choice (ent_action ?e) = Some ch" "length ch = length (hand_of g ?cp)"
        "hand_of g' ?cp = map2 (-) (hand_of g ?cp) ch"
      by blast
    have hs: "hands_of g' = (hands_of g)[?cp := map2 (-) (hand_of g ?cp) ch]"
      using step_play_hands(1)[OF assms(1,2)] ch(3) by simp
    have l': "length (map2 (-) (hand_of g ?cp) ch) = n" using ch(2) ln by simp
    have r: "ranked n g'"
      using assms(6) l' unfolding ranked_def hs
      by (auto simp: list_all_iff dest!: subsetD[OF set_update_subset_insert])
    have cpl: "?cp < length (hands_of g)" using cp by (simp add: hands_of_def)
    have "held g' k + played (history g') k = held g k + played (history g) k" if "k < n"
    proof -
      have "held g' k = held g k - hands_of g ! ?cp ! k + map2 (-) (hand_of g ?cp) ch ! k"
        unfolding held_def hs using sum_list_map_update[OF cpl, of "\<lambda>h. h ! k"] by simp
      also have "\<dots> = held g k - ch ! k"
        using that ln ch(2) cp by (simp add: hand_of_nth)
      finally have "held g' k = held g k - ch ! k" .
      moreover have "played (history g') k = played (history g) k + ch ! k"
        using played_snoc[of "history g" ?e k] hist True ch(1) by simp
      ultimately show ?thesis by simp
    qed
    then show ?thesis using r by simp
  qed
  then show "ranked n g'"
    and "k < n \<Longrightarrow> held g' k + played (history g') k = held g k + played (history g) k"
    by simp_all
qed

lemma game_states_invariant:
  assumes "I g" and "\<And>g g' over. I g \<Longrightarrow> step c g = Inr (g', over) \<Longrightarrow> I g'"
    and "g' \<in> set (game_states c n g)"
  shows "I g'"
  using assms(1,3)
proof (induction n arbitrary: g)
  case 0
  then show ?case by simp
next
  case (Suc n)
  from Suc.prems(2) obtain g1 over where s: "step c g = Inr (g1, over)"
    by (cases "step c g") auto
  have i1: "I g1" by (rule assms(2)[OF Suc.prems(1) s])
  from Suc.prems(2) s have "g' = g1 \<or> g' \<in> set (game_states c n g1)"
    by (auto split: if_splits)
  then show ?case using i1 Suc.IH by blast
qed

lemma step_conserved_inv:
  assumes "reader_legal c" and "k < n"
    and "players_ok x \<and> hands_nonneg x \<and> hands_int64 x \<and> ranked n x \<and>
         held x k + played (history x) k = v"
    and "step c x = Inr (x', over)"
  shows "players_ok x' \<and> hands_nonneg x' \<and> hands_int64 x' \<and> ranked n x' \<and>
         held x' k + played (history x') k = v"
proof -
  note s = assms(4) and i = assms(3)
  have "players_ok x'" using step_players_ok[OF s] i by simp
  moreover have "hands_nonneg x'" "hands_int64 x'"
    using step_hands_inv[OF s _ _ _ assms(1)] i by simp_all
  moreover have "ranked n x'" using step_conserved(1)[OF s _ _ _ assms(1)] i by simp
  moreover have "held x' k + played (history x') k = held x k + played (history x) k"
    using step_conserved(2)[OF s _ _ _ assms(1) _ assms(2)] i by simp
  ultimately show ?thesis using i by simp
qed

lemma game_states_conserved:
  assumes "players_ok g" and "hands_nonneg g" and "hands_int64 g" and "reader_legal c"
    and "ranked n g" and "g' \<in> set (game_states c m g)" and "k < n"
  shows "held g' k + played (history g') k = held g k + played (history g) k"
proof -
  let ?I = "\<lambda>x. players_ok x \<and> hands_nonneg x \<and> hands_int64 x \<and> ranked n x \<and>
                 held x k + played (history x) k = held g k + played (history g) k"
  have "?I g'"
  proof (rule game_states_invariant[where I="?I", OF _ _ assms(6)])
    show "?I g" using assms(1,2,3,5) by simp
    show "?I x'" if "?I x" and "step c x = Inr (x', over)" for x x' over
      by (rule step_conserved_inv[OF assms(4,7) that])
  qed
  then show ?thesis by simp
qed

lemma play_game_loop_conserved:
  assumes "players_ok g" and "hands_nonneg g" and "hands_int64 g" and "reader_legal c"
    and "ranked n g" and "play_game_loop c m g = Some (Inr gf)" and "k < n"
  shows "held gf k + played (history gf) k = held g k + played (history g) k"
proof -
  let ?I = "\<lambda>x. players_ok x \<and> hands_nonneg x \<and> hands_int64 x \<and> ranked n x \<and>
                 held x k + played (history x) k = held g k + played (history g) k"
  have "\<exists>g0. ?I g0 \<and> step c g0 = Inr (gf, True)"
  proof (rule play_game_loop_final[where I="?I", OF assms(6)])
    show "?I g" using assms(1,2,3,5) by simp
    show "?I x'" if "?I x" and "step c x = Inr (x', over)" for x x' over
      by (rule step_conserved_inv[OF assms(4,7) that])
  qed
  then obtain g0 where g0: "?I g0" "step c g0 = Inr (gf, True)" by blast
  from step_conserved_inv[OF assms(4,7) g0] show ?thesis by simp
qed

section \<open>The deal\<close>

lemma deal_card_inv:
  assumes "deal_card nr cf h draws = Some (Inr (cf', h', draws'))"
    and "list_all (\<lambda>x. 0 \<le> x) cf" and "list_all (\<lambda>x. 0 \<le> x) h"
    and "sum_list cf + sum_list h < 9223372036854775808"
  shows "length cf' = length cf \<and> length h' = length h \<and>
         list_all (\<lambda>x. 0 \<le> x) cf' \<and> list_all (\<lambda>x. 0 \<le> x) h' \<and>
         sum_list cf' + sum_list h' = sum_list cf + sum_list h \<and>
         sum_list cf' \<le> sum_list cf \<and>
         (\<forall>k. cf' ! k + h' ! k = cf ! k + h ! k)"
  using assms(1)
proof (induction draws)
  case Nil
  then show ?case by (simp split: if_splits)
next
  case (Cons idx draws)
  show ?case
  proof (cases "nr \<noteq> 0 \<and> idx < length cf \<and> 0 < cf ! idx")
    case False
    then have "deal_card nr cf h draws = Some (Inr (cf', h', draws'))"
      using Cons.prems by (auto split: if_splits)
    then show ?thesis by (rule Cons.IH)
  next
    case True
    then have i: "idx < length h" and c: "cf' = cf[idx := wrap64 (cf ! idx - 1)]"
      and hh: "h' = h[idx := wrap64 (h ! idx + 1)]"
      using Cons.prems by (auto split: if_splits)
    have sc: "0 \<le> sum_list cf" "0 \<le> sum_list h"
      using assms(2,3) by (simp_all add: sum_list_nonneg_int)
    have b1: "cf ! idx \<le> sum_list cf" using elem_le_sum_list[OF assms(2)] True by simp
    have b2: "h ! idx \<le> sum_list h" "0 \<le> h ! idx"
      using elem_le_sum_list[OF assms(3) i] assms(3) i by (simp_all add: list_all_length)
    have w1: "wrap64 (cf ! idx - 1) = cf ! idx - 1"
      using True b1 sc assms(4) by (intro wrap64_id) (simp add: int64_def)
    have w2: "wrap64 (h ! idx + 1) = h ! idx + 1"
      using True b1 b2 sc assms(4) by (intro wrap64_id) (simp add: int64_def)
    have c': "cf' = cf[idx := cf ! idx - 1]" using c w1 by simp
    have h': "h' = h[idx := h ! idx + 1]" using hh w2 by simp
    have n1: "list_all (\<lambda>x. 0 \<le> x) cf'"
      using assms(2) True unfolding c'
      by (auto simp: list_all_iff dest!: subsetD[OF set_update_subset_insert])
    have n2: "list_all (\<lambda>x. 0 \<le> x) h'"
      using assms(3) b2(2) unfolding h'
      by (auto simp: list_all_iff dest!: subsetD[OF set_update_subset_insert])
    have s1: "sum_list cf' = sum_list cf - 1"
      unfolding c' using sum_list_update_int[of idx cf] True by simp
    have s2: "sum_list h' = sum_list h + 1"
      unfolding h' using sum_list_update_int[OF i] by simp
    have "cf' ! k + h' ! k = cf ! k + h ! k" for k
      unfolding c' h' using True i by (cases "k = idx") simp_all
    then show ?thesis using n1 n2 s1 s2 c' h' by simp
  qed
qed

lemma deal_cards_inv:
  assumes "deal_cards n nr cf h draws = Some (Inr (cf', h', draws'))"
    and "list_all (\<lambda>x. 0 \<le> x) cf" and "list_all (\<lambda>x. 0 \<le> x) h"
    and "sum_list cf + sum_list h < 9223372036854775808"
  shows "length cf' = length cf \<and> length h' = length h \<and>
         list_all (\<lambda>x. 0 \<le> x) cf' \<and> list_all (\<lambda>x. 0 \<le> x) h' \<and>
         sum_list cf' + sum_list h' = sum_list cf + sum_list h \<and>
         sum_list cf' \<le> sum_list cf \<and>
         (\<forall>k. cf' ! k + h' ! k = cf ! k + h ! k)"
  using assms
proof (induction n arbitrary: cf h draws)
  case 0
  then show ?case by simp
next
  case (Suc n)
  from Suc.prems(1) obtain cf1 h1 d1 where
    d: "deal_card nr cf h draws = Some (Inr (cf1, h1, d1))" and
    r: "deal_cards n nr cf1 h1 d1 = Some (Inr (cf', h', draws'))"
    by (auto split: option.splits sum.splits)
  note a = deal_card_inv[OF d Suc.prems(2,3,4)]
  have b: "length cf' = length cf1 \<and> length h' = length h1 \<and>
         list_all (\<lambda>x. 0 \<le> x) cf' \<and> list_all (\<lambda>x. 0 \<le> x) h' \<and>
         sum_list cf' + sum_list h' = sum_list cf1 + sum_list h1 \<and>
         sum_list cf' \<le> sum_list cf1 \<and>
         (\<forall>k. cf' ! k + h' ! k = cf1 ! k + h1 ! k)"
    using a Suc.prems(4) by (intro Suc.IH[OF r]) simp_all
  show ?case using a b by simp
qed

lemma deal_players_inv:
  assumes "deal_players ns nr cf draws = Some (Inr (hs, cf', draws'))"
    and "list_all (\<lambda>x. 0 \<le> x) cf" and "sum_list cf < 9223372036854775808"
  shows "length hs = length ns \<and> length cf' = length cf \<and>
         list_all (\<lambda>h. length h = nr \<and> list_all (\<lambda>x. 0 \<le> x) h) hs \<and>
         list_all (\<lambda>x. 0 \<le> x) cf' \<and>
         sum_list cf' + sum_list (map sum_list hs) = sum_list cf \<and>
         (\<forall>k<nr. cf' ! k + sum_list (map (\<lambda>h. h ! k) hs) = cf ! k)"
  using assms
proof (induction ns arbitrary: cf draws hs)
  case Nil
  then show ?case by simp
next
  case (Cons n ns)
  from Cons.prems(1) obtain cf1 h d1 hs1 where
    d: "deal_cards n nr cf (replicate nr 0) draws = Some (Inr (cf1, h, d1))" and
    r: "deal_players ns nr cf1 d1 = Some (Inr (hs1, cf', draws'))" and
    e: "hs = h # hs1"
    by (auto split: option.splits sum.splits)
  have z: "list_all (\<lambda>x. 0 \<le> x) (replicate nr (0 :: int))" "sum_list (replicate nr (0 :: int)) = 0"
    by (simp_all add: list_all_iff sum_list_replicate)
  have a: "length cf1 = length cf \<and> length h = nr \<and>
         list_all (\<lambda>x. 0 \<le> x) cf1 \<and> list_all (\<lambda>x. 0 \<le> x) h \<and>
         sum_list cf1 + sum_list h = sum_list cf \<and>
         sum_list cf1 \<le> sum_list cf \<and>
         (\<forall>k. cf1 ! k + h ! k = cf ! k + replicate nr 0 ! k)"
    using deal_cards_inv[OF d Cons.prems(2) z(1)] Cons.prems(3) z(2) by simp
  have b: "length hs1 = length ns \<and> length cf' = length cf1 \<and>
         list_all (\<lambda>h. length h = nr \<and> list_all (\<lambda>x. 0 \<le> x) h) hs1 \<and>
         list_all (\<lambda>x. 0 \<le> x) cf' \<and>
         sum_list cf' + sum_list (map sum_list hs1) = sum_list cf1 \<and>
         (\<forall>k<nr. cf' ! k + sum_list (map (\<lambda>h. h ! k) hs1) = cf1 ! k)"
    using a Cons.prems(3) by (intro Cons.IH[OF r]) simp_all
  have "cf' ! k + sum_list (map (\<lambda>h. h ! k) hs) = cf ! k" if "k < nr" for k
  proof -
    have "cf1 ! k + h ! k = cf ! k" using a that by simp
    moreover have "cf' ! k + sum_list (map (\<lambda>h. h ! k) hs1) = cf1 ! k" using b that by simp
    ultimately show ?thesis unfolding e by simp
  qed
  then show ?case using a b unfolding e by simp
qed

lemma rot_sum:
  fixes f :: "'a \<Rightarrow> int"
  shows "sum_list (map f (drop n xs @ take n xs)) = sum_list (map f xs)"
proof -
  have "sum_list (map f xs) = sum_list (map f (take n xs @ drop n xs))" by simp
  also have "\<dots> = sum_list (map f (drop n xs @ take n xs))"
    unfolding map_append sum_list.append by simp
  finally show ?thesis by simp
qed

lemma rot_all: "list_all P (drop n xs @ take n xs) = list_all P xs"
proof -
  have "list_all P xs = list_all P (take n xs @ drop n xs)" by simp
  also have "\<dots> = list_all P (drop n xs @ take n xs)"
    unfolding list_all_append by blast
  finally show ?thesis by simp
qed

lemma deck_int64:
  assumes "list_all (\<lambda>f. 0 \<le> f) cfq" and "sum_list cfq * int d < 9223372036854775808"
  shows "map (\<lambda>f. wrap64 (f * int d)) cfq = map (\<lambda>f. f * int d) cfq"
proof (rule map_cong[OF refl])
  fix f assume f: "f \<in> set cfq"
  then obtain k where k: "k < length cfq" "f = cfq ! k" by (auto simp: in_set_conv_nth)
  have "0 \<le> f" using assms(1) f by (simp add: list_all_iff)
  then have "0 \<le> f * int d" by simp
  moreover have "f \<le> sum_list cfq" using elem_le_sum_list[OF assms(1) k(1)] k(2) by simp
  then have "f * int d \<le> sum_list cfq * int d" by (simp add: mult_right_mono)
  ultimately show "wrap64 (f * int d) = f * int d"
    using assms(2) by (intro wrap64_id) (simp add: int64_def)
qed

lemma reset_ok:
  assumes "reset cfg hist keyboard draws order = Some (Inr g)"
    and "length (CARD_FREQ cfg) = NUM_RANKS cfg"
    and "list_all (\<lambda>f. 0 \<le> f) (CARD_FREQ cfg)"
    and "sum_list (CARD_FREQ cfg) * int (cfg_num_decks cfg) < 9223372036854775808"
  shows "players_ok g" and "hands_nonneg g" and "hands_int64 g" and "ranked (NUM_RANKS cfg) g"
    and "length (hands_of g) = 4" and "history g = hist"
    and "k < NUM_RANKS cfg \<Longrightarrow> held g k = CARD_FREQ cfg ! k * int (cfg_num_decks cfg)"
proof -
  let ?d = "int (cfg_num_decks cfg)"
  let ?cf = "map (\<lambda>f. f * ?d) (CARD_FREQ cfg)"
  from assms(1) obtain cpp hs cf' draws' where
    np: "cfg_num_players cfg = 4" and cpp: "cards_per_player cfg = Some cpp" "3 \<le> length cpp" and
    dl: "deal_players (take 3 cpp) (NUM_RANKS cfg)
           (map (\<lambda>f. wrap64 (f * ?d)) (CARD_FREQ cfg)) draws = Some (Inr (hs, cf', draws'))" and
    g: "g = \<lparr>num_players = 4,
             players = map (\<lambda>p. \<lparr>policy = (if cfg_has_user cfg \<and> p = 3 then User else Naive),
                                   hand = p, free = False\<rparr>) [0..<4],
             moveset = cfg_moveset cfg,
             store = drop order (hs @ [cf']) @ take order (hs @ [cf']),
             history = hist, inputs = keyboard,
             curr_player = 0, pattern = None, prev_choice = None,
             leading_rank = None, skip_count = 0\<rparr>"
    by (auto simp: reset_def Let_def split: option.splits sum.splits if_splits)
  have dl': "deal_players (take 3 cpp) (NUM_RANKS cfg) ?cf draws = Some (Inr (hs, cf', draws'))"
    using dl deck_int64[OF assms(3,4)] by simp
  have n0: "list_all (\<lambda>x. 0 \<le> x) ?cf" using assms(3) by (simp add: list_all_iff)
  have s0: "sum_list ?cf = sum_list (CARD_FREQ cfg) * ?d"
    by (simp add: sum_list_mult_const)
  note inv = deal_players_inv[OF dl' n0, unfolded s0, OF assms(4)]
  let ?hands = "hs @ [cf']"
  let ?st = "drop order ?hands @ take order ?hands"
  have l: "length ?hands = 4" using inv cpp(2) by simp
  then have ls: "length ?st = 4" by simp
  have ho: "hands_of g = ?st"
  proof -
    have "hands_of g = map (\<lambda>p. ?st ! p) [0..<4]" unfolding g hands_of_def by (simp add: comp_def)
    also have "\<dots> = ?st" using ls map_nth[of ?st] by simp
    finally show ?thesis .
  qed
  show "length (hands_of g) = 4" using ho ls by simp
  show "history g = hist" unfolding g by simp
  show "players_ok g" unfolding g players_ok_def using ls
    by (simp add: comp_def list_all_iff del: upt_Suc)
  have sm: "sum_list cf' + sum_list (map sum_list hs) = sum_list (CARD_FREQ cfg) * ?d"
    using inv by simp
  have nh: "list_all (list_all (\<lambda>x. 0 \<le> x)) ?hands"
    using inv by (simp add: list_all_iff)
  show "hands_nonneg g" unfolding hands_nonneg_def ho rot_all using nh .
  have "sum_list h < 9223372036854775808" if "h \<in> set ?hands" for h
  proof -
    have t: "sum_list (map sum_list ?hands) < 9223372036854775808" using sm assms(4) by simp
    have nn: "list_all (\<lambda>x. 0 \<le> x) (map sum_list ?hands)"
      using nh by (simp add: list_all_iff sum_list_nonneg)
    from that obtain j where j: "j < length ?hands" "h = ?hands ! j" by (metis in_set_conv_nth)
    have m: "map sum_list ?hands ! j = sum_list h" unfolding j(2) by (rule nth_map[OF j(1)])
    have "map sum_list ?hands ! j \<le> sum_list (map sum_list ?hands)"
      by (rule elem_le_sum_list[OF nn]) (simp only: length_map j(1))
    then show ?thesis using t unfolding m by linarith
  qed
  then have "list_all (\<lambda>h. sum_list h < 9223372036854775808) ?hands" by (simp add: list_all_iff)
  then show "hands_int64 g" unfolding hands_int64_def ho rot_all .
  have "list_all (\<lambda>h. length h = NUM_RANKS cfg) ?hands"
    using inv assms(2) by (simp add: list_all_iff)
  then show "ranked (NUM_RANKS cfg) g" unfolding ranked_def ho rot_all .
  show "held g k = CARD_FREQ cfg ! k * ?d" if "k < NUM_RANKS cfg"
  proof -
    have "held g k = sum_list (map (\<lambda>h. h ! k) ?hands)" unfolding held_def ho by (rule rot_sum)
    also have "\<dots> = cf' ! k + sum_list (map (\<lambda>h. h ! k) hs)" by simp
    also have "\<dots> = ?cf ! k" using inv that by simp
    also have "\<dots> = CARD_FREQ cfg ! k * ?d" using that assms(2) by simp
    finally show ?thesis .
  qed
qed

lemma start_game_hands [simp]: "hands_of (start_game g s) = hands_of g"
  by (simp add: start_game_def hands_of_def)

lemma start_game_ok:
  "players_ok g \<Longrightarrow> players_ok (start_game g s)"
  by (simp add: start_game_def players_ok_def list_all_length nth_list_update)

lemma start_game_history [simp]: "history (start_game g s) = history g"
  by (simp add: start_game_def)

lemma start_game_reads: "hands_nonneg (start_game g s) = hands_nonneg g"
  "hands_int64 (start_game g s) = hands_int64 g" "ranked n (start_game g s) = ranked n g"
  "held (start_game g s) k = held g k"
  by (simp_all add: hands_nonneg_def hands_int64_def ranked_def held_def)

text \<open>
  C7, as the code has it.  The reward is 10 when the remaining hand sum is zero; otherwise it
  is 0.1 when a pattern was played and -0.1 when the player skipped.  The test for an empty
  hand comes first, so a skip with an empty hand is rewarded with 10.
\<close>

theorem calculate_reward_cases:
  "(remainder = 0 \<longrightarrow> calculate_reward p cp remainder = 10) \<and>
   (cp \<and> remainder \<noteq> 0 \<longrightarrow> calculate_reward p cp remainder = 1 / 10) \<and>
   (\<not> cp \<and> remainder \<noteq> 0 \<longrightarrow> calculate_reward p cp remainder = - (1 / 10))"
  by (simp add: calculate_reward_def)

theorem calculate_reward_cases_witness:
  "calculate_reward 2 True 0 = 10 \<and> calculate_reward 2 True 5 = 1 / 10 \<and>
   calculate_reward 2 False 5 = - (1 / 10)"
  using calculate_reward_cases[of 0 2 True] calculate_reward_cases[of 5 2 True]
    calculate_reward_cases[of 5 2 False]
  by simp

text \<open>
  C7, as the claim states it, fails: a player who skips with an empty hand gets 10, not -0.1.
\<close>

theorem calculate_reward_skip_counterexample:
  "calculate_reward 0 False 0 = 10 \<and> calculate_reward 0 False 0 \<noteq> - (1 / 10)"
  by (simp add: calculate_reward_def)

text \<open>
  C5 (free reset).  At the top of an iteration with \<open>skip_count = num_players - 1\<close>, lines 79 to
  81 mark the current player free and reset \<open>skip_count\<close> to 0.  The move of the player
  marked free does not depend on the pattern and the leading rank in force (both policies
  reset the leading rank and choose the pattern anew), and after the iteration \<open>skip_count\<close>
  is 0 if the player played and 1 if the player skipped.
\<close>

theorem free_after_all_skipped:
  assumes "int (skip_count g) = int (num_players g) - 1"
    and "curr_player g < length (players g)"
  shows "free (players (mark_free g) ! curr_player g) \<and>
         skip_count (mark_free g) = 0 \<and>
         (\<forall>pat ld. move c (mark_free g) (curr_player g) pat ld =
                    move c (mark_free g) (curr_player g) None None) \<and>
         (\<forall>g' over. players_ok g \<and> step c g = Inr (g', over) \<longrightarrow>
            skip_count g' =
              (if act_contains_pattern (ent_action (last (history g'))) then 0 else 1))"
proof -
  have f: "free (players (mark_free g) ! curr_player g)"
    using assms by (simp add: mark_free_def)
  have k: "skip_count (mark_free g) = 0"
    using assms by (simp add: mark_free_def)
  have m: "\<forall>pat ld. move c (mark_free g) (curr_player g) pat ld =
                    move c (mark_free g) (curr_player g) None None"
    using move_free_unconstrained[OF f] by blast
  have s: "skip_count g' = (if act_contains_pattern (ent_action (last (history g'))) then 0 else 1)"
    if "players_ok g" "step c g = Inr (g', over)" for g' over
    using that(2,1)
  proof (cases rule: step_turn)
    case (turn h' out e)
    then show ?thesis using assms(1) by simp
  qed
  show ?thesis using f k m s by blast
qed

theorem free_after_all_skipped_witness:
  "int (skip_count (table_after 5)) = int (num_players (table_after 5)) - 1 \<and>
   curr_player (table_after 5) < length (players (table_after 5)) \<and>
   \<not> free (players (table_after 5) ! curr_player (table_after 5)) \<and>
   free (players (mark_free (table_after 5)) ! curr_player (table_after 5)) \<and>
   skip_count (mark_free (table_after 5)) = 0 \<and>
   move ctx0 (mark_free (table_after 5)) (curr_player (table_after 5)) (Some ''1x2'') (Some 2) =
     move ctx0 (mark_free (table_after 5)) (curr_player (table_after 5)) None None \<and>
   players_ok (table_after 5) \<and> \<not> isl (step ctx0 (table_after 5)) \<and>
   skip_count (fst (projr (step ctx0 (table_after 5)))) = 0"
proof -
  have k: "int (skip_count (table_after 5)) = int (num_players (table_after 5)) - 1"
    by code_simp
  have l: "curr_player (table_after 5) < length (players (table_after 5))"
    by code_simp
  have n: "\<not> free (players (table_after 5) ! curr_player (table_after 5))"
    by code_simp
  have ok: "players_ok (table_after 5)"
    by code_simp
  have r: "\<not> isl (step ctx0 (table_after 5))"
    by code_simp
  have p: "act_contains_pattern (ent_action (last (history (fst (projr (step ctx0 (table_after 5)))))))"
    by code_simp
  note t = free_after_all_skipped[OF k l, of ctx0]
  have "skip_count (fst (projr (step ctx0 (table_after 5)))) = 0"
    using t ok Inr_projr[OF r] p by metis
  then show ?thesis using k l n ok r t by simp
qed

text \<open>
  C8 (frame of the hands).  With every player holding an array of its own: a
  \<open>NaivePlayer.move\<close> that reports no pattern leaves all hands unchanged; a move of either
  policy, and a whole iteration of the loop, leaves the hands of all other players unchanged,
  and the hand of the mover is unchanged on a skip and is the result of \<open>hand -= choice\<close>
  otherwise.  When no hand holds a negative count or \<open>2 ^ 63\<close> cards or more, and the reader
  accepts only count vectors that the hand covers, the choice has the shape of the hand and
  the new hand is, rank by rank, the old count minus the count played.
\<close>

theorem hands_change_only_by_own_move:
  assumes "players_ok g"
  shows "(\<forall>g' out. naive_move c g i pat ld = Inr (g', out) \<and> i < length (players g) \<and>
                    \<not> out_contains out \<longrightarrow> hands_of g' = hands_of g) \<and>
         (\<forall>g' out. move c g i pat ld = Inr (g', out) \<and> i < length (players g) \<longrightarrow>
            (\<forall>q<length (players g). q \<noteq> i \<longrightarrow> hand_of g' q = hand_of g q) \<and>
            (if out_contains out
             then \<exists>ch. out_choice out = Some ch \<and> isub (hand_of g i) ch = Inr (hand_of g' i) \<and>
                       (hands_nonneg g \<and> hands_int64 g \<and> reader_legal c \<longrightarrow>
                          length ch = length (hand_of g i) \<and>
                          hand_of g' i = map2 (-) (hand_of g i) ch)
             else hand_of g' i = hand_of g i)) \<and>
         (\<forall>g' over. step c g = Inr (g', over) \<longrightarrow>
            (\<forall>q<length (players g). q \<noteq> curr_player g \<longrightarrow> hand_of g' q = hand_of g q) \<and>
            (if act_contains_pattern (ent_action (last (history g')))
             then \<exists>ch. act_choice (ent_action (last (history g'))) = Some ch \<and>
                       isub (hand_of g (curr_player g)) ch = Inr (hand_of g' (curr_player g)) \<and>
                       (hands_nonneg g \<and> hands_int64 g \<and> reader_legal c \<longrightarrow>
                          length ch = length (hand_of g (curr_player g)) \<and>
                          hand_of g' (curr_player g) = map2 (-) (hand_of g (curr_player g)) ch)
             else hand_of g' (curr_player g) = hand_of g (curr_player g)))"
proof -
  have mv: "(\<forall>q<length (players g). q \<noteq> i \<longrightarrow> hand_of g' q = hand_of g q) \<and>
            (if out_contains out
             then \<exists>ch. out_choice out = Some ch \<and> isub (hand_of g i) ch = Inr (hand_of g' i) \<and>
                       (hands_nonneg g \<and> hands_int64 g \<and> reader_legal c \<longrightarrow>
                          length ch = length (hand_of g i) \<and>
                          hand_of g' i = map2 (-) (hand_of g i) ch)
             else hand_of g' i = hand_of g i)"
    if m: "move c g i pat ld = Inr (g', out)" and i: "i < length (players g)" for g' out
  proof -
    from move_hands[OF m assms i] obtain h' where
      h: "hands_of g' = (hands_of g)[i := h']" and l: "length (players g') = length (players g)"
      and e: "if out_contains out
               then \<exists>ch. out_choice out = Some ch \<and> isub (hand_of g i) ch = Inr h'
               else h' = hand_of g i"
      by blast
    have li: "i < length (hands_of g)" using i by (simp add: hands_of_def)
    have own: "hand_of g' i = h'" using h i l li by (simp add: hand_of_nth)
    have others: "\<forall>q<length (players g). q \<noteq> i \<longrightarrow> hand_of g' q = hand_of g q"
      using h l by (simp add: hand_of_nth)
    show ?thesis
    proof (cases "out_contains out")
      case False
      then show ?thesis using own others e by simp
    next
      case True
      then obtain ch where ch: "out_choice out = Some ch" "isub (hand_of g i) ch = Inr h'"
        using e by auto
      have "length ch = length (hand_of g i) \<and> hand_of g' i = map2 (-) (hand_of g i) ch"
        if hy: "hands_nonneg g" "hands_int64 g" "reader_legal c"
      proof -
        from move_choice_legal[OF m True hands_nonneg_nth[OF hy(1) i] hy(3)] ch(1)
        have lg: "length ch = length (hand_of g i)" "list_all (\<lambda>x. 0 \<le> x) ch"
          "list_all2 (\<le>) ch (hand_of g i)"
          by auto
        have "isub (hand_of g i) ch = Inr (map2 (-) (hand_of g i) ch)"
          by (rule isub_legal[OF lg hands_int64_nth[OF hy(2) i]])
        then show ?thesis using ch(2) own lg(1) by simp
      qed
      then show ?thesis using True own others ch by simp
    qed
  qed
  have nv: "hands_of g' = hands_of g"
    if m: "naive_move c g i pat ld = Inr (g', out)" and i: "i < length (players g)"
      and s: "\<not> out_contains out" for g' out
  proof -
    from naive_move_form[OF m] s obtain ms' where
      "g' = g\<lparr>players := (players g)[i := (players g ! i)\<lparr>free := False\<rparr>], moveset := ms',
              store := (store g)[hand (players g ! i) := store g ! hand (players g ! i)]\<rparr>"
      by auto
    then show ?thesis by (simp add: hands_of_def)
  qed
  have st: "(\<forall>q<length (players g). q \<noteq> curr_player g \<longrightarrow> hand_of g' q = hand_of g q) \<and>
            (if act_contains_pattern (ent_action (last (history g')))
             then \<exists>ch. act_choice (ent_action (last (history g'))) = Some ch \<and>
                       isub (hand_of g (curr_player g)) ch = Inr (hand_of g' (curr_player g)) \<and>
                       (hands_nonneg g \<and> hands_int64 g \<and> reader_legal c \<longrightarrow>
                          length ch = length (hand_of g (curr_player g)) \<and>
                          hand_of g' (curr_player g) = map2 (-) (hand_of g (curr_player g)) ch)
             else hand_of g' (curr_player g) = hand_of g (curr_player g))"
    if s: "step c g = Inr (g', over)" for g' over
    using s assms
  proof (cases rule: step_turn)
    case (turn h' out e)
    have l: "length (players g') = length (players g)"
      using step_players(1)[OF s assms] by simp
    have own: "hand_of g' (curr_player g) = h'"
      using turn(1,2) l by (simp add: hand_of_nth hands_of_def)
    have others: "\<forall>q<length (players g). q \<noteq> curr_player g \<longrightarrow> hand_of g' q = hand_of g q"
      using step_hand_of[OF s assms] by blast
    have e: "e = last (history g')" using turn(3) by simp
    show ?thesis
    proof (cases "act_contains_pattern (ent_action (last (history g')))")
      case False
      then have "\<not> out_contains out" using turn(4) e by simp
      then show ?thesis using False own others turn(9) by simp
    next
      case True
      then have oc: "out_contains out" using turn(4) e by simp
      then obtain ch where ch: "out_choice out = Some ch"
        "isub (hand_of g (curr_player g)) ch = Inr h'"
        using turn(9) by auto
      have ac: "act_choice (ent_action (last (history g'))) = Some ch"
        using turn(4) e ch(1) by simp
      have "length ch = length (hand_of g (curr_player g)) \<and>
            hand_of g' (curr_player g) = map2 (-) (hand_of g (curr_player g)) ch"
        if hy: "hands_nonneg g" "hands_int64 g" "reader_legal c"
        using step_choice_legal[OF s assms hy True] ac by auto
      then show ?thesis using True own others ch(2) ac by simp
    qed
  qed
  show ?thesis using mv nv st by blast
qed

theorem hands_change_only_by_own_move_witness:
  "players_ok (table_after 0) \<and>
   \<not> isl (naive_move ctx0 (table_after 0) 3 (Some ''1x2'') (Some 0)) \<and>
   \<not> out_contains (snd (projr (naive_move ctx0 (table_after 0) 3 (Some ''1x2'') (Some 0)))) \<and>
   hands_of (fst (projr (naive_move ctx0 (table_after 0) 3 (Some ''1x2'') (Some 0))))
     = hands_of (table_after 0) \<and>
   players_ok (table_after 1) \<and> hands_nonneg (table_after 1) \<and> hands_int64 (table_after 1) \<and>
   reader_legal ctx0 \<and>
   \<not> isl (step ctx0 (table_after 1)) \<and> curr_player (table_after 1) = 0 \<and>
   hands_of (table_after 1) = [[1, 0, 2], [0, 2, 1], [0, 1, 0], [1, 1, 1]] \<and>
   act_choice (ent_action (last (history (fst (projr (step ctx0 (table_after 1))))))) =
     Some [0, 0, 2] \<and>
   hand_of (fst (projr (step ctx0 (table_after 1)))) 2 = hand_of (table_after 1) 2 \<and>
   isub (hand_of (table_after 1) 0) [0, 0, 2] =
     Inr (hand_of (fst (projr (step ctx0 (table_after 1)))) 0) \<and>
   hand_of (fst (projr (step ctx0 (table_after 1)))) 0 = map2 (-) [1, 0, 2] [0, 0, 2] \<and>
   hand_of (fst (projr (step ctx0 (table_after 1)))) 0 = [1, 0, 0] \<and>
   hands_of (fst (projr (step ctx0 (table_after 1)))) = [[1, 0, 0], [0, 2, 1], [0, 1, 0], [1, 1, 1]]"
proof -
  have ok0: "players_ok (table_after 0)"
    by code_simp
  have r0: "\<not> isl (naive_move ctx0 (table_after 0) 3 (Some ''1x2'') (Some 0))"
    by code_simp
  have n0: "\<not> out_contains (snd (projr (naive_move ctx0 (table_after 0) 3 (Some ''1x2'') (Some 0))))"
    by code_simp
  have l0: "3 < length (players (table_after 0))"
    by code_simp
  have ok1: "players_ok (table_after 1)"
    by code_simp
  have hy1: "hands_nonneg (table_after 1)" "hands_int64 (table_after 1)"
    by code_simp+
  have r1: "\<not> isl (step ctx0 (table_after 1))"
    by code_simp
  have c1: "curr_player (table_after 1) = 0" "2 < length (players (table_after 1))"
    by code_simp+
  have hs1: "hands_of (table_after 1) = [[1, 0, 2], [0, 2, 1], [0, 1, 0], [1, 1, 1]]"
    "hand_of (table_after 1) 0 = [1, 0, 2]"
    by code_simp+
  have a1: "act_contains_pattern (ent_action (last (history (fst (projr (step ctx0 (table_after 1)))))))"
    "act_choice (ent_action (last (history (fst (projr (step ctx0 (table_after 1))))))) = Some [0, 0, 2]"
    by code_simp+
  note t0 = hands_change_only_by_own_move[OF ok0, of ctx0 3 "Some ''1x2''" "Some 0"]
  have h0: "hands_of (fst (projr (naive_move ctx0 (table_after 0) 3 (Some ''1x2'') (Some 0))))
     = hands_of (table_after 0)"
    using t0 Inr_projr[OF r0] n0 l0 by metis
  have e1: "step ctx0 (table_after 1) =
              Inr (fst (projr (step ctx0 (table_after 1))), snd (projr (step ctx0 (table_after 1))))"
    by (rule Inr_projr[OF r1])
  note t1 = hands_change_only_by_own_move[OF ok1, of ctx0, THEN conjunct2, THEN conjunct2,
              rule_format, OF e1]
  have s1: "(\<forall>q<length (players (table_after 1)). q \<noteq> curr_player (table_after 1) \<longrightarrow>
               hand_of (fst (projr (step ctx0 (table_after 1)))) q = hand_of (table_after 1) q) \<and>
            (if act_contains_pattern (ent_action (last (history (fst (projr (step ctx0 (table_after 1)))))))
             then \<exists>ch. act_choice (ent_action (last (history (fst (projr (step ctx0 (table_after 1))))))) = Some ch \<and>
                       isub (hand_of (table_after 1) (curr_player (table_after 1))) ch =
                         Inr (hand_of (fst (projr (step ctx0 (table_after 1)))) (curr_player (table_after 1))) \<and>
                       (hands_nonneg (table_after 1) \<and> hands_int64 (table_after 1) \<and> reader_legal ctx0 \<longrightarrow>
                          length ch = length (hand_of (table_after 1) (curr_player (table_after 1))) \<and>
                          hand_of (fst (projr (step ctx0 (table_after 1)))) (curr_player (table_after 1)) =
                            map2 (-) (hand_of (table_after 1) (curr_player (table_after 1))) ch)
             else hand_of (fst (projr (step ctx0 (table_after 1)))) (curr_player (table_after 1)) =
                    hand_of (table_after 1) (curr_player (table_after 1)))"
    by (rule t1)
  have h1: "hand_of (fst (projr (step ctx0 (table_after 1)))) 2 = hand_of (table_after 1) 2"
    using s1 c1 by simp
  have h2: "isub (hand_of (table_after 1) 0) [0, 0, 2] =
              Inr (hand_of (fst (projr (step ctx0 (table_after 1)))) 0)"
    using s1 c1(1) a1 by simp
  have h3: "hand_of (fst (projr (step ctx0 (table_after 1)))) 0 = map2 (-) [1, 0, 2] [0, 0, 2]"
    using s1 c1(1) a1 hy1 reader_legal_ctx0 hs1(2) by simp
  then have h4: "hand_of (fst (projr (step ctx0 (table_after 1)))) 0 = [1, 0, 0]"
    by simp
  have h5: "hands_of (fst (projr (step ctx0 (table_after 1)))) =
              [[1, 0, 0], [0, 2, 1], [0, 1, 0], [1, 1, 1]]"
    by code_simp
  show ?thesis
    using ok0 r0 n0 h0 ok1 hy1 reader_legal_ctx0 r1 c1(1) hs1(1) a1(2) h1 h2 h3 h4 h5 by simp
qed

text \<open>
  C9 (history entries).  Every iteration appends exactly one entry, for the current player,
  whose two snapshots read as the hands before and after the move, and then passes the turn to
  the next seat unless the game is over.  Every entry of the history reads the same in every
  later state of the game: the in-place updates of the hands by later moves do not reach the
  copies in the snapshots.
\<close>

theorem history_entries_immutable:
  assumes "players_ok g" and "history_ok g"
  shows "(\<forall>g1 over. step c g = Inr (g1, over) \<longrightarrow>
            (\<exists>e. history g1 = history g @ [e] \<and>
                 act_player (ent_action e) = curr_player g \<and>
                 read_snapshot (store g1) (ent_state e) =
                   (curr_player g, hands_of g, free (players g ! curr_player g)) \<and>
                 read_snapshot (store g1) (ent_new_state e) = (curr_player g, hands_of g1, False)) \<and>
            curr_player g1 =
              (if over then curr_player g else (curr_player g + 1) mod num_players g)) \<and>
         (\<forall>g' \<in> set (game_states c n g). frozen g g') \<and>
         (\<forall>i j. i \<le> j \<and> j < length (game_states c n g) \<longrightarrow>
            frozen (game_states c n g ! i) (game_states c n g ! j))"
proof -
  have a: "(\<exists>e. history g1 = history g @ [e] \<and>
                 act_player (ent_action e) = curr_player g \<and>
                 read_snapshot (store g1) (ent_state e) =
                   (curr_player g, hands_of g, free (players g ! curr_player g)) \<and>
                 read_snapshot (store g1) (ent_new_state e) = (curr_player g, hands_of g1, False)) \<and>
            curr_player g1 =
              (if over then curr_player g else (curr_player g + 1) mod num_players g)"
    if s: "step c g = Inr (g1, over)" for g1 over
    using s assms(1)
  proof (cases rule: step_turn)
    case (turn h' out e)
    have "act_player (ent_action e) = curr_player g" using turn(4) by simp
    then show ?thesis using turn(3,6,7,13) by blast
  qed
  have b: "\<forall>g' \<in> set (game_states c n g). frozen g g'"
    using game_states_inv[OF assms] by blast
  have c: "\<forall>i j. i \<le> j \<and> j < length (game_states c n g) \<longrightarrow>
            frozen (game_states c n g ! i) (game_states c n g ! j)"
    using game_states_pairs[OF assms] by blast
  show ?thesis using a b c by blast
qed

theorem history_entries_immutable_witness:
  "players_ok (start_game table0 2) \<and> history_ok (start_game table0 2) \<and>
   \<not> isl (step ctx0 (start_game table0 2)) \<and>
   table_after 6 \<in> set (game_states ctx0 7 (start_game table0 2)) \<and>
   (0::nat) \<le> 6 \<and> 6 < length (game_states ctx0 7 (start_game table0 2)) \<and>
   hands_of (table_after 0) \<noteq> hands_of (table_after 6) \<and>
   history (table_after 0) \<noteq> [] \<and>
   frozen (start_game table0 2) (table_after 6) \<and>
   frozen (game_states ctx0 7 (start_game table0 2) ! 0) (game_states ctx0 7 (start_game table0 2) ! 6) \<and>
   (\<exists>e. history (fst (projr (step ctx0 (start_game table0 2)))) = history (start_game table0 2) @ [e] \<and>
        read_snapshot (store (fst (projr (step ctx0 (start_game table0 2))))) (ent_new_state e) =
          (2, hands_of (fst (projr (step ctx0 (start_game table0 2)))), False))"
proof -
  have ok: "players_ok (start_game table0 2)" "history_ok (start_game table0 2)"
    by code_simp+
  have r: "\<not> isl (step ctx0 (start_game table0 2))"
    by code_simp
  have m: "table_after 6 \<in> set (game_states ctx0 7 (start_game table0 2))"
    by code_simp
  have l: "(0::nat) \<le> 6 \<and> 6 < length (game_states ctx0 7 (start_game table0 2))"
    by code_simp
  have d: "hands_of (table_after 0) \<noteq> hands_of (table_after 6)" "history (table_after 0) \<noteq> []"
    by code_simp+
  have c: "curr_player (start_game table0 2) = 2"
    by code_simp
  note t = history_entries_immutable[OF ok, of ctx0 7]
  have f1: "frozen (start_game table0 2) (table_after 6)"
    using t m by blast
  have f2: "frozen (game_states ctx0 7 (start_game table0 2) ! 0)
              (game_states ctx0 7 (start_game table0 2) ! 6)"
    using t l by blast
  have e: "\<exists>e. history (fst (projr (step ctx0 (start_game table0 2)))) = history (start_game table0 2) @ [e] \<and>
        read_snapshot (store (fst (projr (step ctx0 (start_game table0 2))))) (ent_new_state e) =
          (curr_player (start_game table0 2), hands_of (fst (projr (step ctx0 (start_game table0 2)))), False)"
    using t Inr_projr[OF r] by metis
  show ?thesis using ok r m l d f1 f2 e c by simp
qed

text \<open>
  C10 (free flag of the user).  Whenever \<open>UserPlayer.move\<close> returns, the free flag of the
  player is \<open>False\<close>, whether or not the accepted input plays a pattern.
\<close>

theorem user_move_clears_free:
  assumes "user_move c g i pat ld = Inr (g', out)" and "i < length (players g)"
  shows "\<not> free (players g' ! i)"
proof -
  from user_move_form[OF assms(1)] obtain ins' h' where
    "g' = g\<lparr>players := (players g)[i := (players g ! i)\<lparr>free := False\<rparr>],
            inputs := ins', store := (store g)[hand (players g ! i) := h']\<rparr>"
    by blast
  then show ?thesis using assms(2) by simp
qed

theorem user_move_clears_free_witness:
  "\<not> isl (user_move ctx0 (start_game table1 3) 3 None None) \<and>
   free (players (start_game table1 3) ! 3) \<and>
   \<not> out_contains (snd (projr (user_move ctx0 (start_game table1 3) 3 None None))) \<and>
   \<not> free (players (fst (projr (user_move ctx0 (start_game table1 3) 3 None None))) ! 3)"
proof -
  have r: "\<not> isl (user_move ctx0 (start_game table1 3) 3 None None)"
    by code_simp
  have f: "free (players (start_game table1 3) ! 3)"
    by code_simp
  have n: "\<not> out_contains (snd (projr (user_move ctx0 (start_game table1 3) 3 None None)))"
    by code_simp
  have l: "3 < length (players (start_game table1 3))"
    by code_simp
  show ?thesis
    using r f n user_move_clears_free[OF Inr_projr[OF r] l] by simp
qed

text \<open>
  C6 (end of the game).  With hands whose counts are not negative and whose totals are below
  \<open>2 ^ 63\<close> (so that no \<open>int64\<close> count or sum wraps around), and a reader that accepts only
  count vectors the hand can pay for: an iteration leaves the loop exactly when the hand of
  the player who moved sums to zero after the move (and, if nobody held an empty hand before,
  exactly when some hand sums to zero); then \<open>curr_player\<close> stays on that player, the entry
  recorded for the iteration is that player's and carries the reward 10; otherwise the turn
  passes to the next seat and the reward is not 10.  When \<open>play_game\<close> returns, the hand of
  \<open>curr_player\<close>, the winner, sums to zero, and the last entry is the winner's, with reward
  10.
\<close>

theorem game_over_when_hand_empty:
  assumes "players_ok g" and "hands_nonneg g" and "hands_int64 g" and "reader_legal c"
  shows "(\<forall>g' over. step c g = Inr (g', over) \<longrightarrow>
            (over \<longleftrightarrow> sum_list (hand_of g' (curr_player g)) = 0) \<and>
            ((\<forall>q<length (players g). 0 < sum_list (hand_of g q)) \<longrightarrow>
               (over \<longleftrightarrow> (\<exists>q<length (players g). sum_list (hand_of g' q) = 0))) \<and>
            (over \<longrightarrow> curr_player g' = curr_player g \<and>
                      act_player (ent_action (last (history g'))) = curr_player g \<and>
                      ent_reward (last (history g')) = 10) \<and>
            (\<not> over \<longrightarrow> curr_player g' = (curr_player g + 1) mod num_players g \<and>
                        ent_reward (last (history g')) \<noteq> 10)) \<and>
         (\<forall>gf. play_game_loop c n g = Some (Inr gf) \<longrightarrow>
            sum_list (hand_of gf (curr_player gf)) = 0 \<and>
            act_player (ent_action (last (history gf))) = curr_player gf \<and>
            ent_reward (last (history gf)) = 10)"
proof -
  have st: "(over \<longleftrightarrow> sum_list (hand_of g' (curr_player g)) = 0) \<and>
            ((\<forall>q<length (players g). 0 < sum_list (hand_of g q)) \<longrightarrow>
               (over \<longleftrightarrow> (\<exists>q<length (players g). sum_list (hand_of g' q) = 0))) \<and>
            (over \<longrightarrow> curr_player g' = curr_player g \<and>
                      act_player (ent_action (last (history g'))) = curr_player g \<and>
                      ent_reward (last (history g')) = 10) \<and>
            (\<not> over \<longrightarrow> curr_player g' = (curr_player g + 1) mod num_players g \<and>
                        ent_reward (last (history g')) \<noteq> 10)"
    if s: "step c g = Inr (g', over)" and ok: "players_ok g" "hands_nonneg g" "hands_int64 g"
    for g g' over
  proof -
    let ?cp = "curr_player g"
    have ov: "over \<longleftrightarrow> sum_list (hand_of g' ?cp) = 0"
      by (rule step_over_iff(1)[OF s ok assms(4)])
    have ns: "np_sum (hand_of g' ?cp) = sum_list (hand_of g' ?cp)"
      by (rule step_over_iff(2)[OF s ok assms(4)])
    have cp: "?cp < length (players g)" by (rule step_players(3)[OF s ok(1)])
    have others: "\<And>q. q < length (players g) \<Longrightarrow> q \<noteq> ?cp \<Longrightarrow> hand_of g' q = hand_of g q"
      using step_hand_of[OF s ok(1)] by blast
    have ex: "over \<longleftrightarrow> (\<exists>q<length (players g). sum_list (hand_of g' q) = 0)"
      if pos: "\<forall>q<length (players g). 0 < sum_list (hand_of g q)"
    proof
      assume over then show "\<exists>q<length (players g). sum_list (hand_of g' q) = 0"
        using ov cp by blast
    next
      assume "\<exists>q<length (players g). sum_list (hand_of g' q) = 0"
      then obtain q where q: "q < length (players g)" "sum_list (hand_of g' q) = 0" by blast
      have "q = ?cp"
      proof (rule ccontr)
        assume "q \<noteq> ?cp"
        then have "hand_of g' q = hand_of g q" using others q(1) by simp
        moreover have "0 < sum_list (hand_of g q)" using pos q(1) by blast
        ultimately show False using q(2) by simp
      qed
      then show over using ov q(2) by simp
    qed
    have rw: "ent_reward (last (history g')) =
           calculate_reward ?cp (act_contains_pattern (ent_action (last (history g'))))
             (sum_list (hand_of g' ?cp))"
      using step_play_hands(3)[OF s ok(1)] unfolding ns .
    have r10: "over \<Longrightarrow> ent_reward (last (history g')) = 10"
      using rw ov by (simp add: calculate_reward_def)
    have rn: "\<not> over \<Longrightarrow> ent_reward (last (history g')) \<noteq> 10"
      using rw ov by (simp add: calculate_reward_def)
    show ?thesis
      using ov ex r10 rn step_play_hands(4,5)[OF s ok(1)] by auto
  qed
  have inv: "players_ok g' \<and> hands_nonneg g' \<and> hands_int64 g'"
    if "players_ok g \<and> hands_nonneg g \<and> hands_int64 g" "step c g = Inr (g', over)"
    for g g' over
    using that step_players_ok step_hands_inv[OF _ _ _ _ assms(4)] by blast
  have lp: "sum_list (hand_of gf (curr_player gf)) = 0 \<and>
            act_player (ent_action (last (history gf))) = curr_player gf \<and>
            ent_reward (last (history gf)) = 10"
    if l: "play_game_loop c n g = Some (Inr gf)" for gf
  proof -
    have "\<exists>g0. (players_ok g0 \<and> hands_nonneg g0 \<and> hands_int64 g0) \<and> step c g0 = Inr (gf, True)"
    proof (rule play_game_loop_final[where
             I="\<lambda>g. players_ok g \<and> hands_nonneg g \<and> hands_int64 g", OF l])
      show "players_ok g \<and> hands_nonneg g \<and> hands_int64 g" using assms(1,2,3) by simp
      show "\<And>g g' over. players_ok g \<and> hands_nonneg g \<and> hands_int64 g \<Longrightarrow>
              step c g = Inr (g', over) \<Longrightarrow> players_ok g' \<and> hands_nonneg g' \<and> hands_int64 g'"
        using inv by blast
    qed
    then obtain g0 where g0: "players_ok g0" "hands_nonneg g0" "hands_int64 g0"
      "step c g0 = Inr (gf, True)"
      by blast
    from st[OF g0(4,1,2,3)] show ?thesis by simp
  qed
  show ?thesis using st[OF _ assms(1,2,3)] lp by blast
qed

theorem game_over_when_hand_empty_witness:
  "players_ok (table_after 5) \<and> hands_nonneg (table_after 5) \<and> hands_int64 (table_after 5) \<and>
   reader_legal ctx0 \<and>
   \<not> isl (step ctx0 (table_after 5)) \<and> snd (projr (step ctx0 (table_after 5))) \<and>
   sum_list (hand_of (fst (projr (step ctx0 (table_after 5)))) (curr_player (table_after 5))) = 0 \<and>
   ent_reward (last (history (fst (projr (step ctx0 (table_after 5)))))) = 10 \<and>
   \<not> isl (step ctx0 (table_after 4)) \<and> \<not> snd (projr (step ctx0 (table_after 4))) \<and>
   curr_player (fst (projr (step ctx0 (table_after 4)))) = 0 \<and>
   play_game_loop ctx0 1 (table_after 5) = Some (Inr (table_after 6)) \<and>
   sum_list (hand_of (table_after 6) (curr_player (table_after 6))) = 0 \<and>
   act_player (ent_action (last (history (table_after 6)))) = curr_player (table_after 6)"
proof -
  have ok5: "players_ok (table_after 5)" "hands_nonneg (table_after 5)"
    "hands_int64 (table_after 5)"
    by code_simp+
  have ok4: "players_ok (table_after 4)" "hands_nonneg (table_after 4)"
    "hands_int64 (table_after 4)"
    by code_simp+
  have r5: "\<not> isl (step ctx0 (table_after 5))" and o5: "snd (projr (step ctx0 (table_after 5)))"
    by code_simp+
  have r4: "\<not> isl (step ctx0 (table_after 4))" and o4: "\<not> snd (projr (step ctx0 (table_after 4)))"
    by code_simp+
  have c4: "(curr_player (table_after 4) + 1) mod num_players (table_after 4) = 0"
    by code_simp
  have l: "play_game_loop ctx0 1 (table_after 5) = Some (Inr (table_after 6))"
    by code_simp
  note t5 = game_over_when_hand_empty[OF ok5 reader_legal_ctx0, of 1]
  note t4 = game_over_when_hand_empty[OF ok4 reader_legal_ctx0, of 1]
  have a: "sum_list (hand_of (fst (projr (step ctx0 (table_after 5)))) (curr_player (table_after 5))) = 0 \<and>
     ent_reward (last (history (fst (projr (step ctx0 (table_after 5)))))) = 10"
    using t5 Inr_projr[OF r5] o5 by metis
  have b: "curr_player (fst (projr (step ctx0 (table_after 4)))) =
             (curr_player (table_after 4) + 1) mod num_players (table_after 4)"
    using t4 Inr_projr[OF r4] o4 by metis
  have d: "sum_list (hand_of (table_after 6) (curr_player (table_after 6))) = 0 \<and>
     act_player (ent_action (last (history (table_after 6)))) = curr_player (table_after 6)"
    using t5 l by blast
  show ?thesis using ok5 reader_legal_ctx0 r5 o5 a r4 o4 b c4 l d by simp
qed

text \<open>
  C4 (conservation).  Let the environment be constructed (empty history, then \<open>reset\<close>) with
  a deck \<open>CARD_FREQ\<close> of \<open>NUM_RANKS\<close> counts that are not negative and, times the number of
  decks, sum to less than \<open>2 ^ 63\<close>, and let the reader accept only count vectors that the hand
  covers.  Then \<open>reset\<close> deals four hands whose counts of every rank sum to the count of the
  deck, \<open>CARD_FREQ[k] * num_decks\<close>; and when the game starts, after every iteration of the
  loop of \<open>play_game\<close>, and when \<open>play_game\<close> returns, the cards of the rank in the hands
  plus the cards of the rank in the choices played so far are the count of the deck.
\<close>

theorem cards_conserved:
  assumes "reset cfg [] keyboard draws order = Some (Inr g0)"
    and "length (CARD_FREQ cfg) = NUM_RANKS cfg"
    and "list_all (\<lambda>f. 0 \<le> f) (CARD_FREQ cfg)"
    and "sum_list (CARD_FREQ cfg) * int (cfg_num_decks cfg) < 9223372036854775808"
    and "reader_legal c" and "k < NUM_RANKS cfg"
  shows "length (hands_of g0) = 4 \<and>
         held g0 k = CARD_FREQ cfg ! k * int (cfg_num_decks cfg) \<and>
         held (start_game g0 starter) k + played (history (start_game g0 starter)) k =
           CARD_FREQ cfg ! k * int (cfg_num_decks cfg) \<and>
         (\<forall>g \<in> set (game_states c m (start_game g0 starter)).
            held g k + played (history g) k = CARD_FREQ cfg ! k * int (cfg_num_decks cfg)) \<and>
         (\<forall>gf. play_game c m g0 starter = Some (Inr gf) \<longrightarrow>
            held gf k + played (history gf) k = CARD_FREQ cfg ! k * int (cfg_num_decks cfg))"
proof -
  let ?g = "start_game g0 starter"
  let ?v = "CARD_FREQ cfg ! k * int (cfg_num_decks cfg)"
  note r = reset_ok[OF assms(1-4)]
  have h: "held g0 k = ?v" by (rule r(7)[OF assms(6)])
  have p0: "played (history ?g) k = 0" using r(6) by (simp add: played_def)
  have ok: "players_ok ?g" "hands_nonneg ?g" "hands_int64 ?g" "ranked (NUM_RANKS cfg) ?g"
    using r(1-4) by (simp_all add: start_game_ok start_game_reads)
  have s: "held ?g k + played (history ?g) k = ?v" using h p0 by (simp add: start_game_reads)
  have a: "held g k + played (history g) k = ?v" if "g \<in> set (game_states c m ?g)" for g
    using game_states_conserved[OF ok(1-3) assms(5) ok(4) that assms(6)] s by simp
  have b: "held gf k + played (history gf) k = ?v" if "play_game c m g0 starter = Some (Inr gf)" for gf
  proof -
    have "play_game_loop c m ?g = Some (Inr gf)"
      using that by (simp add: play_game_def split: if_splits)
    from play_game_loop_conserved[OF ok(1-3) assms(5) ok(4) this assms(6)] s show ?thesis by simp
  qed
  show ?thesis using r(5) h s a b by blast
qed

theorem cards_conserved_witness:
  "reset cfg0 [] [] [0, 2, 2, 1, 1, 2, 0, 0, 1] 0 = Some (Inr table0) \<and>
   length (CARD_FREQ cfg0) = NUM_RANKS cfg0 \<and>
   list_all (\<lambda>f. 0 \<le> f) (CARD_FREQ cfg0) \<and>
   sum_list (CARD_FREQ cfg0) * int (cfg_num_decks cfg0) < 9223372036854775808 \<and>
   reader_legal ctx0 \<and> (2 :: nat) < NUM_RANKS cfg0 \<and>
   CARD_FREQ cfg0 ! 2 * int (cfg_num_decks cfg0) = 4 \<and>
   hands_of table0 = [[1, 0, 2], [0, 2, 1], [2, 1, 0], [1, 1, 1]] \<and>
   held table0 2 = 4 \<and>
   table_after 6 \<in> set (game_states ctx0 7 (start_game table0 2)) \<and>
   hands_of (table_after 6) = [[0, 0, 0], [0, 2, 1], [0, 1, 0], [1, 1, 1]] \<and>
   played (history (table_after 6)) 2 = 2 \<and>
   held (table_after 6) 2 + played (history (table_after 6)) 2 = 4 \<and>
   play_game ctx0 7 table0 2 = Some (Inr (table_after 6))"
proof -
  have r: "reset cfg0 [] [] [0, 2, 2, 1, 1, 2, 0, 0, 1] 0 = Some (Inr table0)"
    by code_simp
  have l: "length (CARD_FREQ cfg0) = NUM_RANKS cfg0"
    and n: "list_all (\<lambda>f. 0 \<le> f) (CARD_FREQ cfg0)"
    and b: "sum_list (CARD_FREQ cfg0) * int (cfg_num_decks cfg0) < 9223372036854775808"
    and k: "(2 :: nat) < NUM_RANKS cfg0"
    and v: "CARD_FREQ cfg0 ! 2 * int (cfg_num_decks cfg0) = 4"
    by code_simp+
  have h0: "hands_of table0 = [[1, 0, 2], [0, 2, 1], [2, 1, 0], [1, 1, 1]]"
    by code_simp
  have m: "table_after 6 \<in> set (game_states ctx0 7 (start_game table0 2))"
    by code_simp
  have h6: "hands_of (table_after 6) = [[0, 0, 0], [0, 2, 1], [0, 1, 0], [1, 1, 1]]"
    and p6: "played (history (table_after 6)) 2 = 2"
    by code_simp+
  have pg: "play_game ctx0 7 table0 2 = Some (Inr (table_after 6))"
    by code_simp
  note t = cards_conserved[OF r l n b reader_legal_ctx0 k, of 2 7]
  have a: "held table0 2 = 4" using t v by simp
  have c: "held (table_after 6) 2 + played (history (table_after 6)) 2 = 4"
    using t m v by simp
  show ?thesis using r l n b reader_legal_ctx0 k v h0 a m h6 p6 c pg by simp
qed

end
